theory Spec2Isabelle
  imports Main "HOL-Library.AList"
begin

section \<open>The fingerprint classifier of os\_fingerprint\_cli.py\<close>

text \<open>
  A Python \<open>str\<close> is modelled as a \<open>string\<close>; one \<open>char\<close> stands for one character of
  the text. The only character the classifier treats specially is the line feed.
\<close>

definition newline :: char where
  "newline = CHR 0x0A"

subsection \<open>Exceptions\<close>

text \<open>
  The exception classes that decide the control flow of the source, and the ones the
  library calls it makes can raise. \<open>KeyboardInterrupt\<close> and \<open>SystemExit\<close> are not
  subclasses of \<open>Exception\<close>; all the others are.
\<close>

datatype exn =
    GaiError
  | TimeoutExpired
  | IndexError
  | EOFError
  | UnicodeError
  | FileNotFoundError
  | MarkupError
  | KeyboardInterrupt
  | SystemExit int

subsection \<open>\<open>re.findall(r"<literal>(.+)", text)\<close>\<close>

text \<open>
  Both patterns of the source are a literal followed by the group \<open>(.+)\<close>. Without the
  DOTALL flag \<open>.\<close> matches every character but the line feed, and \<open>+\<close> is greedy, so a
  match at a position is the literal followed by the longest run of characters other than
  line feed, which must not be empty.
\<close>

fun strip_prefix :: "string \<Rightarrow> string \<Rightarrow> string option" where
  "strip_prefix [] s = Some s"
| "strip_prefix (p # ps) [] = None"
| "strip_prefix (p # ps) (c # cs) = (if p = c then strip_prefix ps cs else None)"

definition match_here :: "string \<Rightarrow> string \<Rightarrow> (string \<times> string) option" where
  "match_here lit s =
     (case strip_prefix lit s of
        None \<Rightarrow> None
      | Some r \<Rightarrow>
          (let cap = takeWhile (\<lambda>c. c \<noteq> newline) r
           in if cap = [] then None else Some (cap, dropWhile (\<lambda>c. c \<noteq> newline) r)))"

text \<open>
  \<open>re.findall\<close> scans from left to right, returns the group of every match and resumes
  after the end of the match; where no match starts it moves on by one character.
\<close>

function findall :: "string \<Rightarrow> string \<Rightarrow> string list" where
  "findall lit [] = []"
| "findall lit (c # cs) =
     (case match_here lit (c # cs) of
        Some (cap, rest) \<Rightarrow> cap # findall lit rest
      | None \<Rightarrow> findall lit cs)"
  by pat_completeness auto
termination
proof (relation "measure (\<lambda>(lit, s). length s)")
  show "wf (measure (\<lambda>(lit, s). length s))" by simp
next
  fix lit :: string and c cs
  show "((lit, cs), lit, c # cs) \<in> measure (\<lambda>(lit, s). length s)" by simp
next
  fix lit :: string and c cs x2 cap rest
  assume "match_here lit (c # cs) = Some x2" and "(cap, rest) = x2"
  then have m: "match_here lit (c # cs) = Some (cap, rest)" by simp
  have shorter: "strip_prefix p s = Some r \<Longrightarrow> length r \<le> length s" for p s r
    by (induction p s rule: strip_prefix.induct) (auto split: if_splits)
  from m obtain r where r: "strip_prefix lit (c # cs) = Some r"
    and ne: "takeWhile (\<lambda>c. c \<noteq> newline) r \<noteq> []"
    and rest: "rest = dropWhile (\<lambda>c. c \<noteq> newline) r"
    by (auto simp: match_here_def Let_def split: option.splits if_splits)
  have "length (takeWhile (\<lambda>c. c \<noteq> newline) r) + length rest = length r"
    unfolding rest by (metis length_append takeWhile_dropWhile_id)
  moreover have "0 < length (takeWhile (\<lambda>c. c \<noteq> newline) r)" using ne by simp
  ultimately have "length rest < length r" by linarith
  with shorter [OF r] show "((lit, rest), lit, c # cs) \<in> measure (\<lambda>(lit, s). length s)"
    by simp
qed

text \<open>The Python operator \<open>needle in haystack\<close> on strings.\<close>

fun contains :: "string \<Rightarrow> string \<Rightarrow> bool" where
  "contains needle [] = (needle = [])"
| "contains needle (c # cs) = (strip_prefix needle (c # cs) \<noteq> None \<or> contains needle cs)"

text \<open>\<open>xs[0]\<close>, which raises \<open>IndexError\<close> on an empty list.\<close>

definition index0 :: "'a list \<Rightarrow> exn + 'a" where
  "index0 xs = (case xs of [] \<Rightarrow> Inl IndexError | x # _ \<Rightarrow> Inr x)"

subsection \<open>\<open>parse_os_fingerprint\<close>\<close>

definition parse_os_fingerprint :: "string \<Rightarrow> exn + string" where
  "parse_os_fingerprint nmap_output =
     (if nmap_output = [] then Inr ''[danger]No output received[/danger]''
      else
        let os_match = findall ''OS details: '' nmap_output;
            os_guess = findall ''Running: '' nmap_output
        in if os_match \<noteq> [] then
             (case index0 os_match of
                Inl e \<Rightarrow> Inl e
              | Inr d \<Rightarrow> Inr (''[os]'' @ d @ ''[/os]''))
           else if os_guess \<noteq> [] then
             (case index0 os_guess of
                Inl e \<Rightarrow> Inl e
              | Inr d \<Rightarrow> Inr (''[os]'' @ d @ ''[/os]''))
           else if contains ''No exact OS matches'' nmap_output then
             Inr ''[warning]No exact OS match found[/warning]''
           else if contains ''Too many fingerprints match'' nmap_output then
             Inr ''[warning]Too many fingerprints matched[/warning]''
           else if contains ''OS detection performed'' nmap_output then
             Inr ''[warning]OS detection performed, but inconclusive[/warning]''
           else Inr ''[danger]Could not parse OS fingerprint[/danger]'')"

text \<open>
  The source returns a marked-up message and no tag. The classification kinds of the
  specification name the branches of the chain above: \<open>classify\<close> gives, for a text, the
  branch that \<open>parse_os_fingerprint\<close> takes together with the text that the branch puts
  between the markup tags, and \<open>markup\<close> is the message of each branch.
\<close>

datatype kind =
    Empty
  | ExactMatch
  | GuessedMatch
  | NoExactMatch
  | TooManyMatches
  | InconclusiveDetection
  | Unparseable

definition classify :: "string \<Rightarrow> kind \<times> string" where
  "classify nmap_output =
     (if nmap_output = [] then (Empty, ''No output received'')
      else case findall ''OS details: '' nmap_output of
        d # _ \<Rightarrow> (ExactMatch, d)
      | [] \<Rightarrow>
         (case findall ''Running: '' nmap_output of
            d # _ \<Rightarrow> (GuessedMatch, d)
          | [] \<Rightarrow>
             if contains ''No exact OS matches'' nmap_output then
               (NoExactMatch, ''No exact OS match found'')
             else if contains ''Too many fingerprints match'' nmap_output then
               (TooManyMatches, ''Too many fingerprints matched'')
             else if contains ''OS detection performed'' nmap_output then
               (InconclusiveDetection, ''OS detection performed, but inconclusive'')
             else (Unparseable, ''Could not parse OS fingerprint'')))"

fun markup :: "kind \<times> string \<Rightarrow> string" where
  "markup (Empty, d) = ''[danger]'' @ d @ ''[/danger]''"
| "markup (ExactMatch, d) = ''[os]'' @ d @ ''[/os]''"
| "markup (GuessedMatch, d) = ''[os]'' @ d @ ''[/os]''"
| "markup (NoExactMatch, d) = ''[warning]'' @ d @ ''[/warning]''"
| "markup (TooManyMatches, d) = ''[warning]'' @ d @ ''[/warning]''"
| "markup (InconclusiveDetection, d) = ''[warning]'' @ d @ ''[/warning]''"
| "markup (Unparseable, d) = ''[danger]'' @ d @ ''[/danger]''"

text \<open>
  Where a match of \<open>lit(.+)\<close> starts, said without the scan: the literal stands at
  position \<open>i\<close> and the character after it exists and is not a line feed.
\<close>

definition match_at :: "string \<Rightarrow> string \<Rightarrow> nat \<Rightarrow> bool" where
  "match_at lit t i \<longleftrightarrow>
     i + length lit < length t \<and> take (length lit) (drop i t) = lit \<and>
     t ! (i + length lit) \<noteq> newline"

definition rest_of_line :: "string \<Rightarrow> string" where
  "rest_of_line s = takeWhile (\<lambda>c. c \<noteq> newline) s"

section \<open>The session: console, prompts and the two library calls\<close>

text \<open>
  Every \<open>console.print\<close> of the source is one constructor of \<open>out\<close>, carrying the values
  that the source interpolates into the message. The banner, the disclaimer and the progress
  bar are left out. The text of a \<open>ReportPanel\<close> is a \<open>Text\<close>, which is shown as it is;
  its title and all the other messages are markup.
\<close>

datatype out =
    Welcome
  | Added string
  | InvalidTarget string
  | NoTargets
  | ModeTable
  | ModeSelected string string
  | Scanning string
  | NmapReturnedError int string string
  | ScanTimedOut string
  | ReportPanel string string
  | Plot3D "(string \<times> string) list"
  | ScanComplete
  | Aborted
  | ErrorMessage exn

text \<open>
  What a run leaves behind: the lines printed, the number of calls of
  \<open>socket.gethostbyname\<close> made, and the argument vector of every call of
  \<open>subprocess.run\<close>, in the order of the calls.
\<close>

record world =
  console :: "out list"
  lookups :: nat
  invocations :: "string list list"

definition say :: "out \<Rightarrow> world \<Rightarrow> world" where
  "say msg w = w\<lparr>console := console w @ [msg]\<rparr>"

text \<open>
  \<open>console.print\<close> renders the markup of the message, and rich raises \<open>MarkupError\<close>
  when the markup holds a closing tag that closes nothing. The source interpolates answers
  of the operator, addresses and the standard error of the child process into its messages
  as they are, so a print with an interpolated value can raise. Which messages rich renders
  is a parameter, \<open>renders\<close>; a message that is not rendered raises and prints nothing.
  The messages without an interpolated value are well-formed constants and are printed with
  \<open>say\<close>.
\<close>

type_synonym renderer = "out \<Rightarrow> bool"

definition console_print :: "renderer \<Rightarrow> out \<Rightarrow> world \<Rightarrow> exn + world" where
  "console_print renders msg w = (if renders msg then Inr (say msg w) else Inl MarkupError)"

text \<open>
  The two library calls are parameters. Their result may differ from call to call, so each
  takes the number of calls made before it: \<open>gethostbyname n host\<close> is what the call
  number \<open>n\<close> of \<open>socket.gethostbyname\<close> does on \<open>host\<close>, the address or the exception
  raised, and \<open>run n argv\<close> is what the call number \<open>n\<close> of
  \<open>subprocess.run(argv, capture_output=True, text=True, timeout=120)\<close> does.
\<close>

record completed =
  stdout :: string
  stderr :: string
  returncode :: int

type_synonym lookup = "nat \<Rightarrow> string \<Rightarrow> exn + string"

type_synonym runner = "nat \<Rightarrow> string list \<Rightarrow> exn + completed"

text \<open>
  \<open>Prompt.ask\<close>: the operator's answers are the list of the values that the successive
  calls return; when the input is exhausted the call raises \<open>EOFError\<close>.
\<close>

subsection \<open>\<open>str.strip()\<close> and \<open>str.split()\<close>\<close>

text \<open>
  Both work on white space: the characters for which \<open>str.isspace()\<close> holds, here those
  up to code point 255. \<open>split\<close> without argument cuts at every run of white space and
  returns no empty word.
\<close>

definition is_space :: "char \<Rightarrow> bool" where
  "is_space c \<longleftrightarrow>
     c \<in> set [CHR 0x09, CHR 0x0A, CHR 0x0B, CHR 0x0C, CHR 0x0D, CHR 0x1C, CHR 0x1D, CHR 0x1E,
              CHR 0x1F, CHR 0x20, CHR 0x85, CHR 0xA0]"

definition strip :: "string \<Rightarrow> string" where
  "strip s = rev (dropWhile is_space (rev (dropWhile is_space s)))"

fun split_from :: "string \<Rightarrow> string \<Rightarrow> string list" where
  "split_from word [] = (if word = [] then [] else [word])"
| "split_from word (c # cs) =
     (if is_space c then (if word = [] then split_from [] cs else word # split_from [] cs)
      else split_from (word @ [c]) cs)"

definition split :: "string \<Rightarrow> string list" where
  "split s = split_from [] s"

subsection \<open>Target selection\<close>

definition resolve_host :: "(string \<Rightarrow> exn + string) \<Rightarrow> string \<Rightarrow> exn + string option" where
  "resolve_host gethostbyname target =
     (case gethostbyname target of
        Inr ip \<Rightarrow> Inr (Some ip)
      | Inl e \<Rightarrow> if e = GaiError then Inr None else Inl e)"

text \<open>
  The loop of \<open>interactive_target_selection\<close>, from the state in which \<open>targets\<close> holds the
  addresses accepted so far. The result is the list returned or the exception that leaves
  the function, the answers not yet read, and the world.
\<close>

fun selection_loop ::
  "lookup \<Rightarrow> renderer \<Rightarrow> string list \<Rightarrow> string list \<Rightarrow> world \<Rightarrow>
     (exn + string list) \<times> string list \<times> world"
where
  "selection_loop gethostbyname renders targets [] w = (Inl EOFError, [], w)"
| "selection_loop gethostbyname renders targets (target # answers) w =
     (if strip target = [] then (Inr targets, answers, w)
      else
        let w1 = w\<lparr>lookups := Suc (lookups w)\<rparr> in
        case resolve_host (gethostbyname (lookups w)) (strip target) of
          Inl e \<Rightarrow> (Inl e, answers, w1)
        | Inr ip \<Rightarrow>
            (case ip of
               Some a \<Rightarrow>
                 if a \<noteq> [] then
                   (case console_print renders (Added a) w1 of
                      Inl e \<Rightarrow> (Inl e, answers, w1)
                    | Inr w2 \<Rightarrow> selection_loop gethostbyname renders (targets @ [a]) answers w2)
                 else
                   (case console_print renders (InvalidTarget target) w1 of
                      Inl e \<Rightarrow> (Inl e, answers, w1)
                    | Inr w2 \<Rightarrow> selection_loop gethostbyname renders targets answers w2)
             | None \<Rightarrow>
                 (case console_print renders (InvalidTarget target) w1 of
                    Inl e \<Rightarrow> (Inl e, answers, w1)
                  | Inr w2 \<Rightarrow> selection_loop gethostbyname renders targets answers w2)))"

definition interactive_target_selection ::
  "lookup \<Rightarrow> renderer \<Rightarrow> string list \<Rightarrow> world \<Rightarrow> (exn + string list) \<times> string list \<times> world"
where
  "interactive_target_selection gethostbyname renders answers w =
     selection_loop gethostbyname renders [] answers w"

subsection \<open>Scan modes\<close>

definition quick_args :: string where
  "quick_args = ''-O --osscan-guess --max-retries 1 --host-timeout 30s''"

definition aggressive_args :: string where
  "aggressive_args = ''-O -T4 --osscan-guess --version-all --max-retries 3''"

fun mode_loop :: "string list \<Rightarrow> world \<Rightarrow> (exn + string \<times> string) \<times> string list \<times> world" where
  "mode_loop [] w = (Inl EOFError, [], w)"
| "mode_loop (choice # answers) w =
     (if choice = ''1'' then (Inr (''quick'', quick_args), answers, w)
      else if choice = ''2'' then (Inr (''aggressive'', aggressive_args), answers, w)
      else if choice = ''3'' then
        (case answers of
           [] \<Rightarrow> (Inl EOFError, [], w)
         | custom_args # answers' \<Rightarrow> (Inr (''custom'', custom_args), answers', w))
      else mode_loop answers w)"

definition select_scan_mode ::
  "string list \<Rightarrow> world \<Rightarrow> (exn + string \<times> string) \<times> string list \<times> world"
where
  "select_scan_mode answers w = mode_loop answers (say ModeTable w)"

subsection \<open>The scan runner\<close>

definition command :: "string \<Rightarrow> string \<Rightarrow> string \<Rightarrow> string list" where
  "command nmap_path nmap_args target = split (nmap_path @ '' '' @ nmap_args @ '' '' @ target)"

text \<open>
  The loop of \<open>run_nmap_scan\<close>, from the state in which \<open>results\<close> holds the entries made
  so far. \<open>results\<close> is a Python dictionary, which keeps its keys in the order of their
  first insertion: an association list in which \<open>AList.update\<close> replaces the value of a
  key that is present, in place, and appends a key that is not. The \<open>try\<close> catches
  \<open>subprocess.TimeoutExpired\<close> only: any other exception of the call, and a
  \<open>MarkupError\<close> of the print of the standard error inside the \<open>try\<close> or of the print in
  the handler, leaves the function. The progress bar, whose description holds the target
  too, is not part of the model.
\<close>

fun scan_loop ::
  "runner \<Rightarrow> renderer \<Rightarrow> string \<Rightarrow> string \<Rightarrow> string list \<Rightarrow> (string \<times> string) list \<Rightarrow> world \<Rightarrow>
     (exn + (string \<times> string) list) \<times> world"
where
  "scan_loop run renders nmap_path nmap_args [] results w = (Inr results, w)"
| "scan_loop run renders nmap_path nmap_args (target # targets) results w =
     (case console_print renders (Scanning target) w of
        Inl e \<Rightarrow> (Inl e, w)
      | Inr w1 \<Rightarrow>
          let cmd = command nmap_path nmap_args target;
              w2 = w1\<lparr>invocations := invocations w1 @ [cmd]\<rparr>
          in case run (length (invocations w1)) cmd of
               Inr proc \<Rightarrow>
                 let output = stdout proc @ stderr proc;
                     results' = AList.update target output results
                 in if returncode proc \<noteq> 0 then
                      (case console_print renders
                              (NmapReturnedError (returncode proc) target (stderr proc)) w2 of
                         Inl e \<Rightarrow> (Inl e, w2)
                       | Inr w3 \<Rightarrow> scan_loop run renders nmap_path nmap_args targets results' w3)
                    else scan_loop run renders nmap_path nmap_args targets results' w2
             | Inl e \<Rightarrow>
                 if e = TimeoutExpired then
                   (case console_print renders (ScanTimedOut target) w2 of
                      Inl e' \<Rightarrow> (Inl e', w2)
                    | Inr w3 \<Rightarrow>
                        scan_loop run renders nmap_path nmap_args targets
                          (AList.update target [] results) w3)
                 else (Inl e, w2))"

definition run_nmap_scan ::
  "runner \<Rightarrow> renderer \<Rightarrow> string \<Rightarrow> string list \<Rightarrow> string \<Rightarrow> world \<Rightarrow>
     (exn + (string \<times> string) list) \<times> world"
where
  "run_nmap_scan run renders nmap_path targets nmap_args w =
     scan_loop run renders nmap_path nmap_args targets [] w"

subsection \<open>\<open>main\<close> and the entry point\<close>

text \<open>
  The loop of \<open>main\<close> over \<open>results.items()\<close>, from the state in which \<open>fingerprints\<close>
  holds the entries made so far. The panel is recorded with the target, which is
  interpolated into its title, and the message it shows.
\<close>

fun report_loop ::
  "renderer \<Rightarrow> (string \<times> string) list \<Rightarrow> (string \<times> string) list \<Rightarrow> world \<Rightarrow>
     (exn + (string \<times> string) list) \<times> world"
where
  "report_loop renders [] fingerprints w = (Inr fingerprints, w)"
| "report_loop renders ((target, output) # items) fingerprints w =
     (case parse_os_fingerprint output of
        Inl e \<Rightarrow> (Inl e, w)
      | Inr osinfo \<Rightarrow>
          (case console_print renders (ReportPanel target osinfo) w of
             Inl e \<Rightarrow> (Inl e, w)
           | Inr w1 \<Rightarrow>
               report_loop renders items (AList.update target osinfo fingerprints) w1))"

text \<open>
  \<open>main\<close> from the welcome line on; \<open>nmap_path\<close> is the value read from the configuration
  and \<open>has_3d\<close> the flag \<open>HAS_3D\<close>. \<open>sys.exit(1)\<close> raises \<open>SystemExit(1)\<close>.
\<close>

definition main ::
  "lookup \<Rightarrow> runner \<Rightarrow> renderer \<Rightarrow> string \<Rightarrow> bool \<Rightarrow> string list \<Rightarrow> world \<Rightarrow>
     (exn + unit) \<times> string list \<times> world"
where
  "main gethostbyname run renders nmap_path has_3d answers w =
     (case interactive_target_selection gethostbyname renders answers (say Welcome w) of
        (Inl e, a1, w1) \<Rightarrow> (Inl e, a1, w1)
      | (Inr targets, a1, w1) \<Rightarrow>
          if targets = [] then (Inl (SystemExit 1), a1, say NoTargets w1)
          else
            (case select_scan_mode a1 w1 of
               (Inl e, a2, w2) \<Rightarrow> (Inl e, a2, w2)
             | (Inr (scanmode, nmap_args), a2, w2) \<Rightarrow>
                 (case console_print renders (ModeSelected scanmode nmap_args) w2 of
                    Inl e \<Rightarrow> (Inl e, a2, w2)
                  | Inr w2' \<Rightarrow>
                      (case run_nmap_scan run renders nmap_path targets nmap_args w2' of
                         (Inl e, w3) \<Rightarrow> (Inl e, a2, w3)
                       | (Inr results, w3) \<Rightarrow>
                           (case report_loop renders results [] w3 of
                              (Inl e, w4) \<Rightarrow> (Inl e, a2, w4)
                            | (Inr fingerprints, w4) \<Rightarrow>
                                if has_3d then
                                  (case a2 of
                                     [] \<Rightarrow> (Inl EOFError, [], w4)
                                   | answer # a3 \<Rightarrow>
                                       if answer = ''y''
                                       then (Inr (), a3,
                                             say ScanComplete (say (Plot3D fingerprints) w4))
                                       else (Inr (), a3, say ScanComplete w4))
                                else (Inr (), a2, say ScanComplete w4))))))"

text \<open>
  The entry point: \<open>KeyboardInterrupt\<close> and every \<open>Exception\<close> are reported and the
  script ends, with exit status 0; \<open>SystemExit\<close> is neither, leaves the script and gives
  the exit status. The report of an \<open>Exception\<close> interpolates its text: when that print
  raises, the exception leaves the handler and the script ends with exit status 1.
\<close>

definition entrypoint ::
  "lookup \<Rightarrow> runner \<Rightarrow> renderer \<Rightarrow> string \<Rightarrow> bool \<Rightarrow> string list \<Rightarrow> world \<Rightarrow>
     int \<times> string list \<times> world"
where
  "entrypoint gethostbyname run renders nmap_path has_3d answers w =
     (case main gethostbyname run renders nmap_path has_3d answers w of
        (Inr u, a, w') \<Rightarrow> (0, a, w')
      | (Inl e, a, w') \<Rightarrow>
          (case e of
             KeyboardInterrupt \<Rightarrow> (0, a, say Aborted w')
           | SystemExit status \<Rightarrow> (status, a, w')
           | _ \<Rightarrow>
               (case console_print renders (ErrorMessage e) w' of
                  Inr w'' \<Rightarrow> (0, a, w'')
                | Inl e' \<Rightarrow> (1, a, w'))))"

section \<open>Notions used to state the properties\<close>

text \<open>
  \<open>outcomes\<close> lists what the calls of \<open>subprocess.run\<close> of one batch do, the first of
  them being call number \<open>n\<close>; \<open>raw_text\<close> is the text that the source stores for an
  outcome; \<open>ends\<close> says that a call returns or times out; \<open>insert_key\<close> is the
  effect of an assignment \<open>results[t] = ...\<close> on the keys of the dictionary.
  \<open>initial_world\<close> is the world before the script starts, and \<open>sample_run\<close> one
  behaviour of three successive child processes. \<open>bracket_run\<close> is a child process that
  returns with exit status 1 and a standard error that names a directory in brackets.
  \<open>interpolated\<close> lists the values that a message interpolates into markup, and
  \<open>sample_renders\<close> is a renderer that refuses the messages into which the characters
  \<open>[/\<close> were interpolated, as rich does where they begin a closing tag that closes
  nothing, and the report of a \<open>MarkupError\<close>, whose text quotes such a tag.
\<close>

definition raw_text :: "exn + completed \<Rightarrow> string" where
  "raw_text r = (case r of Inr proc \<Rightarrow> stdout proc @ stderr proc | Inl e \<Rightarrow> [])"

fun outcomes :: "runner \<Rightarrow> string \<Rightarrow> string \<Rightarrow> nat \<Rightarrow> string list \<Rightarrow> (exn + completed) list" where
  "outcomes run p a n [] = []"
| "outcomes run p a n (t # ts) = run n (command p a t) # outcomes run p a (Suc n) ts"

definition ends :: "exn + completed \<Rightarrow> bool" where
  "ends r \<longleftrightarrow> (case r of Inr proc \<Rightarrow> True | Inl e \<Rightarrow> e = TimeoutExpired)"

definition insert_key :: "string \<Rightarrow> string list \<Rightarrow> string list" where
  "insert_key t ks = (if t \<in> set ks then ks else ks @ [t])"

definition initial_world :: world where
  "initial_world = \<lparr>console = [], lookups = 0, invocations = []\<rparr>"

definition sample_run :: runner where
  "sample_run n argv =
     (if n = 0 then Inl TimeoutExpired
      else if n = 1 then
        Inr \<lparr>stdout = ''OS details: Linux 5.4'', stderr = ''RTTVAR has grown'', returncode = 1\<rparr>
      else Inr \<lparr>stdout = ''Running: Linux 3.2'', stderr = [], returncode = 0\<rparr>)"

text \<open>
  \<open>missing_run\<close> is what \<open>subprocess.run\<close> does when the executable is not found.
  \<open>sample_gethostbyname\<close> is one behaviour of \<open>socket.gethostbyname\<close>: like CPython, it
  raises \<open>UnicodeError\<close>, from the encoding of the name, for a name of more than 63
  characters without a dot, before any lookup is made; \<open>sample_lookup\<close> behaves so at
  every call. \<open>resolved_before gethostbyname m ip\<close> says that one of the first \<open>m\<close>
  calls of \<open>gethostbyname\<close> returned the address \<open>ip\<close>. \<open>panels\<close> lists the panels
  of a console, in the order in which they were printed, each with its target and its
  message.
\<close>

definition bracket_run :: runner where
  "bracket_run n argv =
     Inr \<lparr>stdout = [], stderr = ''see [/usr/share/nmap]'', returncode = 1\<rparr>"

fun interpolated :: "out \<Rightarrow> string list" where
  "interpolated (Added ip) = [ip]"
| "interpolated (InvalidTarget target) = [target]"
| "interpolated (ModeSelected scanmode nmap_args) = [scanmode, nmap_args]"
| "interpolated (Scanning target) = [target]"
| "interpolated (NmapReturnedError status target err) = [target, err]"
| "interpolated (ScanTimedOut target) = [target]"
| "interpolated (ReportPanel target osinfo) = [target]"
| "interpolated msg = []"

definition sample_renders :: renderer where
  "sample_renders msg =
     (case msg of
        ErrorMessage e \<Rightarrow> e \<noteq> MarkupError
      | _ \<Rightarrow> list_all (\<lambda>s. \<not> contains ''[/'' s) (interpolated msg))"

definition missing_run :: runner where
  "missing_run n argv = Inl FileNotFoundError"

definition sample_gethostbyname :: "string \<Rightarrow> exn + string" where
  "sample_gethostbyname host =
     (if 63 < length host then Inl UnicodeError
      else if host = ''localhost'' then Inr ''127.0.0.1''
      else if host \<in> set [''127.0.0.1'', ''10.0.0.1'', ''10.0.0.2''] then Inr host
      else Inl GaiError)"

definition sample_lookup :: lookup where
  "sample_lookup n = sample_gethostbyname"

definition resolved_before :: "lookup \<Rightarrow> nat \<Rightarrow> string \<Rightarrow> bool" where
  "resolved_before gethostbyname m ip \<longleftrightarrow> (\<exists>n host. n < m \<and> gethostbyname n host = Inr ip)"

definition panels :: "out list \<Rightarrow> (string \<times> string) list" where
  "panels msgs = concat (map (\<lambda>m. case m of ReportPanel t i \<Rightarrow> [(t, i)] | _ \<Rightarrow> []) msgs)"

section \<open>Properties of the scan\<close>

lemma strip_prefix_Some: "strip_prefix p s = Some r \<longleftrightarrow> s = p @ r"
  by (induction p s rule: strip_prefix.induct) auto

lemma strip_prefix_None: "strip_prefix p s = None \<longleftrightarrow> (\<forall>r. s \<noteq> p @ r)"
  using strip_prefix_Some [of p s] by (cases "strip_prefix p s") auto

lemma parse_os_fingerprint_markup: "parse_os_fingerprint t = Inr (markup (classify t))"
  by (auto simp: parse_os_fingerprint_def classify_def index0_def Let_def split: list.splits)

lemma match_at_iff:
  "match_at lit t i \<longleftrightarrow> (\<exists>pre c r. t = pre @ lit @ c # r \<and> length pre = i \<and> c \<noteq> newline)"
proof
  assume m: "match_at lit t i"
  then have len: "i + length lit < length t" and tk: "take (length lit) (drop i t) = lit"
    and nl: "t ! (i + length lit) \<noteq> newline"
    by (auto simp: match_at_def)
  have "t = take i t @ drop i t" by simp
  also have "drop i t = take (length lit) (drop i t) @ drop (length lit) (drop i t)"
    by (rule append_take_drop_id [symmetric])
  also have "drop (length lit) (drop i t) = t ! (i + length lit) # drop (Suc (i + length lit)) t"
    using len by (simp add: Cons_nth_drop_Suc add.commute)
  finally have "t = take i t @ lit @ t ! (i + length lit) # drop (Suc (i + length lit)) t"
    using tk by simp
  moreover have "length (take i t) = i" using len by simp
  ultimately show "\<exists>pre c r. t = pre @ lit @ c # r \<and> length pre = i \<and> c \<noteq> newline"
    using nl by blast
next
  assume "\<exists>pre c r. t = pre @ lit @ c # r \<and> length pre = i \<and> c \<noteq> newline"
  then obtain pre c r where "t = pre @ lit @ c # r" "length pre = i" "c \<noteq> newline" by blast
  then show "match_at lit t i"
    by (auto simp: match_at_def nth_append)
qed

lemma match_at_Suc: "match_at lit (c # cs) (Suc i) \<longleftrightarrow> match_at lit cs i"
  by (simp add: match_at_def)

lemma match_here_match_at:
  "match_here lit s = (if match_at lit s 0
     then Some (rest_of_line (drop (length lit) s), dropWhile (\<lambda>c. c \<noteq> newline) (drop (length lit) s))
     else None)"
proof (cases "strip_prefix lit s")
  case None
  then have "\<not> match_at lit s 0"
    by (auto simp: strip_prefix_None match_at_iff)
  with None show ?thesis by (simp add: match_here_def)
next
  case (Some r)
  then have s: "s = lit @ r" by (simp add: strip_prefix_Some)
  have "match_at lit s 0 \<longleftrightarrow> takeWhile (\<lambda>c. c \<noteq> newline) r \<noteq> []"
    unfolding s by (cases r) (auto simp: match_at_def nth_append)
  with Some s show ?thesis
    by (simp add: match_here_def Let_def rest_of_line_def)
qed

lemma findall_first:
  "match_at lit t i \<Longrightarrow> (\<forall>j<i. \<not> match_at lit t j) \<Longrightarrow>
   \<exists>more. findall lit t = rest_of_line (drop (i + length lit) t) # more"
proof (induction t arbitrary: i)
  case Nil
  then show ?case by (simp add: match_at_def)
next
  case (Cons c cs)
  show ?case
  proof (cases i)
    case 0
    with Cons.prems show ?thesis
      by (simp add: match_here_match_at)
  next
    case (Suc k)
    with Cons.prems have no0: "\<not> match_at lit (c # cs) 0" by blast
    from Suc Cons.prems have mk: "match_at lit cs k" by (simp add: match_at_Suc)
    have "\<forall>j<k. \<not> match_at lit cs j"
    proof (intro allI impI)
      fix j assume "j < k"
      then have "Suc j < i" using Suc by simp
      with Cons.prems have "\<not> match_at lit (c # cs) (Suc j)" by blast
      then show "\<not> match_at lit cs j" by (simp add: match_at_Suc)
    qed
    with Cons.IH [OF mk] obtain more where "findall lit cs = rest_of_line (drop (k + length lit) cs) # more"
      by blast
    with no0 Suc show ?thesis
      by (simp add: match_here_match_at)
  qed
qed

lemma findall_Nil_iff: "findall lit t = [] \<longleftrightarrow> (\<forall>i. \<not> match_at lit t i)"
proof (induction t)
  case Nil
  then show ?case by (simp add: match_at_def)
next
  case (Cons c cs)
  show ?case
  proof (cases "match_at lit (c # cs) 0")
    case True
    then show ?thesis by (auto simp: match_here_match_at)
  next
    case False
    have "(\<forall>i. \<not> match_at lit (c # cs) i) \<longleftrightarrow> (\<forall>i. \<not> match_at lit cs i)"
    proof
      assume a: "\<forall>i. \<not> match_at lit (c # cs) i"
      show "\<forall>i. \<not> match_at lit cs i"
      proof
        fix i from a have "\<not> match_at lit (c # cs) (Suc i)" by blast
        then show "\<not> match_at lit cs i" by (simp add: match_at_Suc)
      qed
    next
      assume a: "\<forall>i. \<not> match_at lit cs i"
      show "\<forall>i. \<not> match_at lit (c # cs) i"
      proof
        fix i show "\<not> match_at lit (c # cs) i"
          using a False by (cases i) (auto simp: match_at_Suc)
      qed
    qed
    with False Cons.IH show ?thesis by (simp add: match_here_match_at)
  qed
qed

lemma findall_captures:
  "d \<in> set (findall lit t) \<Longrightarrow> d \<noteq> [] \<and> newline \<notin> set d"
proof (induction lit t rule: findall.induct)
  case (1 lit)
  then show ?case by simp
next
  case (2 lit c cs)
  show ?case
  proof (cases "match_here lit (c # cs)")
    case None
    with 2 show ?thesis by simp
  next
    case (Some p)
    obtain cap rest where p: "p = (cap, rest)" by (cases p)
    from Some p have "cap \<noteq> [] \<and> newline \<notin> set cap"
      by (auto simp: match_here_def Let_def split: option.splits if_splits dest: set_takeWhileD)
    with 2 Some p show ?thesis by auto
  qed
qed

lemma contains_iff: "contains n h \<longleftrightarrow> (\<exists>pre post. h = pre @ n @ post)"
proof (induction h)
  case Nil
  then show ?case by auto
next
  case (Cons c cs)
  have "strip_prefix n (c # cs) \<noteq> None \<longleftrightarrow> (\<exists>post. c # cs = n @ post)"
    by (simp add: strip_prefix_None)
  moreover have "(\<exists>pre post. c # cs = pre @ n @ post) \<longleftrightarrow>
      (\<exists>post. c # cs = n @ post) \<or> (\<exists>pre post. cs = pre @ n @ post)"
  proof
    assume "\<exists>pre post. c # cs = pre @ n @ post"
    then obtain pre post where e: "c # cs = pre @ n @ post" by blast
    show "(\<exists>post. c # cs = n @ post) \<or> (\<exists>pre post. cs = pre @ n @ post)"
    proof (cases pre)
      case Nil with e show ?thesis by auto
    next
      case (Cons a pre') with e show ?thesis by auto
    qed
  next
    assume "(\<exists>post. c # cs = n @ post) \<or> (\<exists>pre post. cs = pre @ n @ post)"
    then show "\<exists>pre post. c # cs = pre @ n @ post"
    proof
      assume "\<exists>post. c # cs = n @ post"
      then obtain post where "c # cs = [] @ n @ post" by auto
      then show ?thesis by blast
    next
      assume "\<exists>pre post. cs = pre @ n @ post"
      then obtain pre post where "c # cs = (c # pre) @ n @ post" by auto
      then show ?thesis by blast
    qed
  qed
  ultimately show ?case using Cons.IH by simp
qed

lemma all_less_list: "(\<forall>j<i. P j) \<longleftrightarrow> list_all P [0..<i]"
  by (auto simp: list_all_iff)

section \<open>The classifier\<close>

text \<open>
  C1. A text in which the pattern \<open>OS details: (.+)\<close> matches is classified ExactMatch
  with the rest of the line of the leftmost match as detail, whatever \<open>Running:\<close> lines
  it also holds; a text in which that pattern matches nowhere and \<open>Running: (.+)\<close>
  matches is classified GuessedMatch with the rest of the line of the leftmost match of
  the second pattern. In both cases the source returns the detail inside the \<open>os\<close>
  markup.
\<close>

theorem classify_first_match:
  "(match_at ''OS details: '' t i \<and> (\<forall>j<i. \<not> match_at ''OS details: '' t j) \<longrightarrow>
      classify t = (ExactMatch, rest_of_line (drop (i + length ''OS details: '') t)) \<and>
      parse_os_fingerprint t =
        Inr (''[os]'' @ rest_of_line (drop (i + length ''OS details: '') t) @ ''[/os]''))
   \<and> ((\<forall>j. \<not> match_at ''OS details: '' t j) \<and>
       match_at ''Running: '' t i \<and> (\<forall>j<i. \<not> match_at ''Running: '' t j) \<longrightarrow>
      classify t = (GuessedMatch, rest_of_line (drop (i + length ''Running: '') t)) \<and>
      parse_os_fingerprint t =
        Inr (''[os]'' @ rest_of_line (drop (i + length ''Running: '') t) @ ''[/os]''))"
proof (intro conjI impI)
  assume a: "match_at ''OS details: '' t i \<and> (\<forall>j<i. \<not> match_at ''OS details: '' t j)"
  then have ne: "t \<noteq> []" by (auto simp: match_at_def)
  from a obtain more where
    "findall ''OS details: '' t = rest_of_line (drop (i + length ''OS details: '') t) # more"
    using findall_first [of "''OS details: ''" t i] by blast
  with ne show c: "classify t = (ExactMatch, rest_of_line (drop (i + length ''OS details: '') t))"
    by (simp add: classify_def)
  show "parse_os_fingerprint t =
        Inr (''[os]'' @ rest_of_line (drop (i + length ''OS details: '') t) @ ''[/os]'')"
    unfolding parse_os_fingerprint_markup c by simp
next
  assume a: "(\<forall>j. \<not> match_at ''OS details: '' t j) \<and>
       match_at ''Running: '' t i \<and> (\<forall>j<i. \<not> match_at ''Running: '' t j)"
  then have ne: "t \<noteq> []" by (auto simp: match_at_def)
  from a have no: "findall ''OS details: '' t = []" by (simp add: findall_Nil_iff)
  from a obtain more where
    "findall ''Running: '' t = rest_of_line (drop (i + length ''Running: '') t) # more"
    using findall_first [of "''Running: ''" t i] by blast
  with ne no show c: "classify t = (GuessedMatch, rest_of_line (drop (i + length ''Running: '') t))"
    by (simp add: classify_def)
  show "parse_os_fingerprint t =
        Inr (''[os]'' @ rest_of_line (drop (i + length ''Running: '') t) @ ''[/os]'')"
    unfolding parse_os_fingerprint_markup c by simp
qed

theorem classify_first_match_witness:
  "match_at ''OS details: '' ''Host is up.\<newline>OS details: Linux 5.0 - 5.4\<newline>Running: Linux 3.2'' 12 \<and>
   \<not> (\<exists>j<12. match_at ''OS details: '' ''Host is up.\<newline>OS details: Linux 5.0 - 5.4\<newline>Running: Linux 3.2'' j) \<and>
   classify ''Host is up.\<newline>OS details: Linux 5.0 - 5.4\<newline>Running: Linux 3.2'' =
     (ExactMatch, ''Linux 5.0 - 5.4'') \<and>
   parse_os_fingerprint ''Host is up.\<newline>OS details: Linux 5.0 - 5.4\<newline>Running: Linux 3.2'' =
     Inr ''[os]Linux 5.0 - 5.4[/os]'' \<and>
   (\<forall>j. \<not> match_at ''OS details: '' ''Running: Linux 3.2 - 4.9'' j) \<and>
   match_at ''Running: '' ''Running: Linux 3.2 - 4.9'' 0 \<and>
   \<not> (\<exists>j<0. match_at ''Running: '' ''Running: Linux 3.2 - 4.9'' j) \<and>
   classify ''Running: Linux 3.2 - 4.9'' = (GuessedMatch, ''Linux 3.2 - 4.9'') \<and>
   parse_os_fingerprint ''Running: Linux 3.2 - 4.9'' = Inr ''[os]Linux 3.2 - 4.9[/os]''"
proof -
  let ?a = "''Host is up.\<newline>OS details: Linux 5.0 - 5.4\<newline>Running: Linux 3.2''"
  let ?b = "''Running: Linux 3.2 - 4.9''"
  have a1: "match_at ''OS details: '' ?a 12"
    by (simp add: match_at_def newline_def)
  have a2: "\<forall>j<12. \<not> match_at ''OS details: '' ?a j"
    unfolding all_less_list by code_simp
  have a3: "rest_of_line (drop (12 + length ''OS details: '') ?a) = ''Linux 5.0 - 5.4''"
    by code_simp
  have "findall ''OS details: '' ?b = []"
    by code_simp
  then have b1: "\<forall>j. \<not> match_at ''OS details: '' ?b j"
    using findall_Nil_iff by blast
  have b2: "match_at ''Running: '' ?b 0"
    by (simp add: match_at_def newline_def)
  have b3: "\<forall>j<0. \<not> match_at ''Running: '' ?b j"
    by simp
  have b4: "rest_of_line (drop (0 + length ''Running: '') ?b) = ''Linux 3.2 - 4.9''"
    by code_simp
  from classify_first_match [of ?a 12] a1 a2
  have "classify ?a = (ExactMatch, rest_of_line (drop (12 + length ''OS details: '') ?a)) \<and>
      parse_os_fingerprint ?a =
        Inr (''[os]'' @ rest_of_line (drop (12 + length ''OS details: '') ?a) @ ''[/os]'')"
    by blast
  then have ra: "classify ?a = (ExactMatch, ''Linux 5.0 - 5.4'') \<and>
      parse_os_fingerprint ?a = Inr ''[os]Linux 5.0 - 5.4[/os]''"
    unfolding a3 by simp
  from classify_first_match [of ?b 0] b1 b2 b3
  have "classify ?b = (GuessedMatch, rest_of_line (drop (0 + length ''Running: '') ?b)) \<and>
      parse_os_fingerprint ?b =
        Inr (''[os]'' @ rest_of_line (drop (0 + length ''Running: '') ?b) @ ''[/os]'')"
    by blast
  then have rb: "classify ?b = (GuessedMatch, ''Linux 3.2 - 4.9'') \<and>
      parse_os_fingerprint ?b = Inr ''[os]Linux 3.2 - 4.9[/os]''"
    unfolding b4 by simp
  from a2 have a2': "\<not> (\<exists>j<12. match_at ''OS details: '' ?a j)" by blast
  have b3': "\<not> (\<exists>j<0. match_at ''Running: '' ?b j)" by simp
  from a1 a2' ra b1 b2 b3' rb show ?thesis by blast
qed

text \<open>
  C2. A text that is not empty and in which neither pattern matches is classified by the
  first of the three substrings that occurs in it, tried in the order
  \<open>No exact OS matches\<close>, \<open>Too many fingerprints match\<close>, \<open>OS detection performed\<close>;
  substrings later in that order play no part. With none of them the text is Unparseable.
\<close>

theorem classify_fallback_priority:
  assumes "t \<noteq> []"
    and "\<forall>i. \<not> match_at ''OS details: '' t i"
    and "\<forall>i. \<not> match_at ''Running: '' t i"
  shows "((\<exists>pre post. t = pre @ ''No exact OS matches'' @ post) \<longrightarrow>
           classify t = (NoExactMatch, ''No exact OS match found'') \<and>
           parse_os_fingerprint t = Inr ''[warning]No exact OS match found[/warning]'') \<and>
         (\<not> (\<exists>pre post. t = pre @ ''No exact OS matches'' @ post) \<and>
          (\<exists>pre post. t = pre @ ''Too many fingerprints match'' @ post) \<longrightarrow>
           classify t = (TooManyMatches, ''Too many fingerprints matched'') \<and>
           parse_os_fingerprint t = Inr ''[warning]Too many fingerprints matched[/warning]'') \<and>
         (\<not> (\<exists>pre post. t = pre @ ''No exact OS matches'' @ post) \<and>
          \<not> (\<exists>pre post. t = pre @ ''Too many fingerprints match'' @ post) \<and>
          (\<exists>pre post. t = pre @ ''OS detection performed'' @ post) \<longrightarrow>
           classify t = (InconclusiveDetection, ''OS detection performed, but inconclusive'') \<and>
           parse_os_fingerprint t =
             Inr ''[warning]OS detection performed, but inconclusive[/warning]'') \<and>
         (\<not> (\<exists>pre post. t = pre @ ''No exact OS matches'' @ post) \<and>
          \<not> (\<exists>pre post. t = pre @ ''Too many fingerprints match'' @ post) \<and>
          \<not> (\<exists>pre post. t = pre @ ''OS detection performed'' @ post) \<longrightarrow>
           classify t = (Unparseable, ''Could not parse OS fingerprint'') \<and>
           parse_os_fingerprint t = Inr ''[danger]Could not parse OS fingerprint[/danger]'')"
proof -
  from assms have no: "findall ''OS details: '' t = []" "findall ''Running: '' t = []"
    by (simp_all add: findall_Nil_iff)
  have c: "classify t =
     (if contains ''No exact OS matches'' t then (NoExactMatch, ''No exact OS match found'')
      else if contains ''Too many fingerprints match'' t then
        (TooManyMatches, ''Too many fingerprints matched'')
      else if contains ''OS detection performed'' t then
        (InconclusiveDetection, ''OS detection performed, but inconclusive'')
      else (Unparseable, ''Could not parse OS fingerprint''))"
    using assms(1) no by (simp add: classify_def)
  show ?thesis
    unfolding parse_os_fingerprint_markup c contains_iff [symmetric] by simp
qed

theorem classify_fallback_priority_witness:
  "''Too many fingerprints match this host.\<newline>OS detection performed.'' \<noteq> [] \<and>
   (\<forall>i. \<not> match_at ''OS details: ''
      ''Too many fingerprints match this host.\<newline>OS detection performed.'' i) \<and>
   (\<forall>i. \<not> match_at ''Running: ''
      ''Too many fingerprints match this host.\<newline>OS detection performed.'' i) \<and>
   \<not> (\<exists>pre post. ''Too many fingerprints match this host.\<newline>OS detection performed.'' =
      pre @ ''No exact OS matches'' @ post) \<and>
   (\<exists>pre post. ''Too many fingerprints match this host.\<newline>OS detection performed.'' =
      pre @ ''Too many fingerprints match'' @ post) \<and>
   (\<exists>pre post. ''Too many fingerprints match this host.\<newline>OS detection performed.'' =
      pre @ ''OS detection performed'' @ post) \<and>
   classify ''Too many fingerprints match this host.\<newline>OS detection performed.'' =
     (TooManyMatches, ''Too many fingerprints matched'') \<and>
   parse_os_fingerprint ''Too many fingerprints match this host.\<newline>OS detection performed.'' =
     Inr ''[warning]Too many fingerprints matched[/warning]''"
proof -
  let ?t = "''Too many fingerprints match this host.\<newline>OS detection performed.''"
  have h1: "?t \<noteq> []" by simp
  have "findall ''OS details: '' ?t = []" by code_simp
  then have h2: "\<forall>i. \<not> match_at ''OS details: '' ?t i"
    using findall_Nil_iff by blast
  have "findall ''Running: '' ?t = []" by code_simp
  then have h3: "\<forall>i. \<not> match_at ''Running: '' ?t i"
    using findall_Nil_iff by blast
  have "\<not> contains ''No exact OS matches'' ?t" by code_simp
  then have h4: "\<not> (\<exists>pre post. ?t = pre @ ''No exact OS matches'' @ post)"
    unfolding contains_iff .
  have "contains ''Too many fingerprints match'' ?t" by code_simp
  then have h5: "\<exists>pre post. ?t = pre @ ''Too many fingerprints match'' @ post"
    unfolding contains_iff .
  have "contains ''OS detection performed'' ?t" by code_simp
  then have h6: "\<exists>pre post. ?t = pre @ ''OS detection performed'' @ post"
    unfolding contains_iff .
  from classify_fallback_priority [OF h1 h2 h3] h4 h5
  have "classify ?t = (TooManyMatches, ''Too many fingerprints matched'') \<and>
     parse_os_fingerprint ?t = Inr ''[warning]Too many fingerprints matched[/warning]''"
    by blast
  with h1 h2 h3 h4 h5 h6 show ?thesis by blast
qed

text \<open>
  C3. \<open>parse_os_fingerprint\<close> returns on every text: the indexing \<open>os_match[0]\<close> and
  \<open>os_guess[0]\<close> is only reached with a list that is not empty, so no \<open>IndexError\<close>
  leaves the function, and the scan of \<open>findall\<close> ends on every text. The result is the
  message of one of the seven branches. The empty text gives the branch Empty, whose
  message is \<open>No output received\<close> in the \<open>danger\<close> markup; a text that is not empty,
  in which neither pattern matches and none of the three substrings occurs, gives the
  branch Unparseable, whose message is \<open>Could not parse OS fingerprint\<close> in the
  \<open>danger\<close> markup.
\<close>

theorem parse_os_fingerprint_total:
  "(\<exists>k d. classify t = (k, d) \<and> parse_os_fingerprint t = Inr (markup (k, d))) \<and>
   (t = [] \<longrightarrow>
      classify t = (Empty, ''No output received'') \<and>
      parse_os_fingerprint t = Inr ''[danger]No output received[/danger]'') \<and>
   (t \<noteq> [] \<and> (\<forall>i. \<not> match_at ''OS details: '' t i) \<and> (\<forall>i. \<not> match_at ''Running: '' t i) \<and>
    \<not> (\<exists>pre post. t = pre @ ''No exact OS matches'' @ post) \<and>
    \<not> (\<exists>pre post. t = pre @ ''Too many fingerprints match'' @ post) \<and>
    \<not> (\<exists>pre post. t = pre @ ''OS detection performed'' @ post) \<longrightarrow>
      classify t = (Unparseable, ''Could not parse OS fingerprint'') \<and>
      parse_os_fingerprint t = Inr ''[danger]Could not parse OS fingerprint[/danger]'')"
proof (intro conjI impI)
  show "\<exists>k d. classify t = (k, d) \<and> parse_os_fingerprint t = Inr (markup (k, d))"
    by (cases "classify t") (simp add: parse_os_fingerprint_markup)
next
  assume "t = []"
  then show c: "classify t = (Empty, ''No output received'')"
    by (simp add: classify_def)
  show "parse_os_fingerprint t = Inr ''[danger]No output received[/danger]''"
    unfolding parse_os_fingerprint_markup c by simp
next
  assume a: "t \<noteq> [] \<and> (\<forall>i. \<not> match_at ''OS details: '' t i) \<and> (\<forall>i. \<not> match_at ''Running: '' t i) \<and>
    \<not> (\<exists>pre post. t = pre @ ''No exact OS matches'' @ post) \<and>
    \<not> (\<exists>pre post. t = pre @ ''Too many fingerprints match'' @ post) \<and>
    \<not> (\<exists>pre post. t = pre @ ''OS detection performed'' @ post)"
  then have no: "findall ''OS details: '' t = []" "findall ''Running: '' t = []"
    by (simp_all add: findall_Nil_iff)
  from a have nc: "\<not> contains ''No exact OS matches'' t"
    "\<not> contains ''Too many fingerprints match'' t" "\<not> contains ''OS detection performed'' t"
    unfolding contains_iff by blast+
  from a no nc show c: "classify t = (Unparseable, ''Could not parse OS fingerprint'')"
    by (simp add: classify_def)
  show "parse_os_fingerprint t = Inr ''[danger]Could not parse OS fingerprint[/danger]''"
    unfolding parse_os_fingerprint_markup c by simp
qed

theorem parse_os_fingerprint_total_witness:
  "classify [] = (Empty, ''No output received'') \<and>
   parse_os_fingerprint [] = Inr ''[danger]No output received[/danger]'' \<and>
   ''OS details: \<newline>Running: '' \<noteq> [] \<and>
   (\<forall>i. \<not> match_at ''OS details: '' ''OS details: \<newline>Running: '' i) \<and>
   (\<forall>i. \<not> match_at ''Running: '' ''OS details: \<newline>Running: '' i) \<and>
   \<not> (\<exists>pre post. ''OS details: \<newline>Running: '' = pre @ ''No exact OS matches'' @ post) \<and>
   \<not> (\<exists>pre post. ''OS details: \<newline>Running: '' = pre @ ''Too many fingerprints match'' @ post) \<and>
   \<not> (\<exists>pre post. ''OS details: \<newline>Running: '' = pre @ ''OS detection performed'' @ post) \<and>
   classify ''OS details: \<newline>Running: '' = (Unparseable, ''Could not parse OS fingerprint'') \<and>
   parse_os_fingerprint ''OS details: \<newline>Running: '' =
     Inr ''[danger]Could not parse OS fingerprint[/danger]''"
proof -
  let ?t = "''OS details: \<newline>Running: ''"
  have e: "classify [] = (Empty, ''No output received'') \<and>
      parse_os_fingerprint [] = Inr ''[danger]No output received[/danger]''"
    using parse_os_fingerprint_total [of "[]"] by blast
  have h1: "?t \<noteq> []" by simp
  have "findall ''OS details: '' ?t = []" by code_simp
  then have h2: "\<forall>i. \<not> match_at ''OS details: '' ?t i"
    using findall_Nil_iff by blast
  have "findall ''Running: '' ?t = []" by code_simp
  then have h3: "\<forall>i. \<not> match_at ''Running: '' ?t i"
    using findall_Nil_iff by blast
  have "\<not> contains ''No exact OS matches'' ?t" by code_simp
  then have h4: "\<not> (\<exists>pre post. ?t = pre @ ''No exact OS matches'' @ post)"
    unfolding contains_iff .
  have "\<not> contains ''Too many fingerprints match'' ?t" by code_simp
  then have h5: "\<not> (\<exists>pre post. ?t = pre @ ''Too many fingerprints match'' @ post)"
    unfolding contains_iff .
  have "\<not> contains ''OS detection performed'' ?t" by code_simp
  then have h6: "\<not> (\<exists>pre post. ?t = pre @ ''OS detection performed'' @ post)"
    unfolding contains_iff .
  from parse_os_fingerprint_total [of ?t] h1 h2 h3 h4 h5 h6
  have "classify ?t = (Unparseable, ''Could not parse OS fingerprint'') \<and>
      parse_os_fingerprint ?t = Inr ''[danger]Could not parse OS fingerprint[/danger]''"
    by blast
  with e h1 h2 h3 h4 h5 h6 show ?thesis by blast
qed

text \<open>
  C9, as amended. The patterns are not anchored to the start of a line. Wherever
  \<open>OS details: \<close> stands in the text, also in the middle of a line, followed by a
  character other than line feed, the text is classified ExactMatch. Wherever
  \<open>Running: \<close> stands followed by a character other than line feed, the text is
  classified GuessedMatch provided the first pattern matches nowhere in the text. In both
  cases the detail is not empty and holds no line feed.
\<close>

theorem unanchored_patterns:
  "(t = pre @ ''OS details: '' @ c # rest \<and> c \<noteq> newline \<longrightarrow>
      (\<exists>d. classify t = (ExactMatch, d) \<and> d \<noteq> [] \<and> newline \<notin> set d)) \<and>
   (t = pre @ ''Running: '' @ c # rest \<and> c \<noteq> newline \<and>
    (\<forall>i. \<not> match_at ''OS details: '' t i) \<longrightarrow>
      (\<exists>d. classify t = (GuessedMatch, d) \<and> d \<noteq> [] \<and> newline \<notin> set d))"
proof (intro conjI impI)
  assume a: "t = pre @ ''OS details: '' @ c # rest \<and> c \<noteq> newline"
  then have "match_at ''OS details: '' t (length pre)"
    unfolding match_at_iff by blast
  then have "findall ''OS details: '' t \<noteq> []"
    using findall_Nil_iff by blast
  then obtain d more where f: "findall ''OS details: '' t = d # more"
    by (cases "findall ''OS details: '' t") auto
  then have "d \<in> set (findall ''OS details: '' t)" by simp
  then have "d \<noteq> [] \<and> newline \<notin> set d" by (rule findall_captures)
  moreover from a f have "classify t = (ExactMatch, d)" by (simp add: classify_def)
  ultimately show "\<exists>d. classify t = (ExactMatch, d) \<and> d \<noteq> [] \<and> newline \<notin> set d" by blast
next
  assume a: "t = pre @ ''Running: '' @ c # rest \<and> c \<noteq> newline \<and>
    (\<forall>i. \<not> match_at ''OS details: '' t i)"
  then have no: "findall ''OS details: '' t = []" using findall_Nil_iff by blast
  from a have "match_at ''Running: '' t (length pre)"
    unfolding match_at_iff by blast
  then have "findall ''Running: '' t \<noteq> []"
    using findall_Nil_iff by blast
  then obtain d more where f: "findall ''Running: '' t = d # more"
    by (cases "findall ''Running: '' t") auto
  then have "d \<in> set (findall ''Running: '' t)" by simp
  then have "d \<noteq> [] \<and> newline \<notin> set d" by (rule findall_captures)
  moreover from a no f have "classify t = (GuessedMatch, d)" by (simp add: classify_def)
  ultimately show "\<exists>d. classify t = (GuessedMatch, d) \<and> d \<noteq> [] \<and> newline \<notin> set d" by blast
qed

theorem unanchored_patterns_witness:
  "''Host 10.0.0.5 OS details: Linux 5.4\<newline>up'' =
     ''Host 10.0.0.5 '' @ ''OS details: '' @ CHR ''L'' # ''inux 5.4\<newline>up'' \<and>
   CHR ''L'' \<noteq> newline \<and>
   (\<exists>d. classify ''Host 10.0.0.5 OS details: Linux 5.4\<newline>up'' = (ExactMatch, d) \<and>
      d \<noteq> [] \<and> newline \<notin> set d) \<and>
   ''OS details: \<newline>guess Running: Linux 3.2'' =
     ''OS details: \<newline>guess '' @ ''Running: '' @ CHR ''L'' # ''inux 3.2'' \<and>
   (\<forall>i. \<not> match_at ''OS details: '' ''OS details: \<newline>guess Running: Linux 3.2'' i) \<and>
   (\<exists>d. classify ''OS details: \<newline>guess Running: Linux 3.2'' = (GuessedMatch, d) \<and>
      d \<noteq> [] \<and> newline \<notin> set d)"
proof -
  let ?a = "''Host 10.0.0.5 OS details: Linux 5.4\<newline>up''"
  let ?b = "''OS details: \<newline>guess Running: Linux 3.2''"
  have a1: "?a = ''Host 10.0.0.5 '' @ ''OS details: '' @ CHR ''L'' # ''inux 5.4\<newline>up''"
    by simp
  have nl: "CHR ''L'' \<noteq> newline" by (simp add: newline_def)
  have b1: "?b = ''OS details: \<newline>guess '' @ ''Running: '' @ CHR ''L'' # ''inux 3.2''"
    by simp
  have "findall ''OS details: '' ?b = []" by code_simp
  then have b2: "\<forall>i. \<not> match_at ''OS details: '' ?b i"
    using findall_Nil_iff by blast
  from unanchored_patterns [of ?a "''Host 10.0.0.5 ''" "CHR ''L''" "''inux 5.4\<newline>up''"] a1 nl
  have ra: "\<exists>d. classify ?a = (ExactMatch, d) \<and> d \<noteq> [] \<and> newline \<notin> set d"
    by blast
  from unanchored_patterns [of ?b "''OS details: \<newline>guess ''" "CHR ''L''" "''inux 3.2''"] b1 nl b2
  have rb: "\<exists>d. classify ?b = (GuessedMatch, d) \<and> d \<noteq> [] \<and> newline \<notin> set d"
    by blast
  from a1 nl ra b1 b2 rb show ?thesis by blast
qed

text \<open>
  C9 as it was stated fails for the second pattern: in the text below \<open>Running: \<close> is
  followed by \<open>B\<close>, and the text is classified ExactMatch, since the first pattern
  matches too.
\<close>

theorem running_not_always_guessed:
  "''OS details: A\<newline>Running: B'' = ''OS details: A\<newline>'' @ ''Running: '' @ CHR ''B'' # [] \<and>
   CHR ''B'' \<noteq> newline \<and>
   classify ''OS details: A\<newline>Running: B'' = (ExactMatch, ''A'') \<and>
   fst (classify ''OS details: A\<newline>Running: B'') \<noteq> GuessedMatch"
proof -
  have "classify ''OS details: A\<newline>Running: B'' = (ExactMatch, ''A'')"
    by code_simp
  then show ?thesis by (simp add: newline_def)
qed

section \<open>The scan runner\<close>

lemma length_outcomes [simp]: "length (outcomes run p a n ts) = length ts"
  by (induction ts arbitrary: n) auto

lemma outcomes_nth:
  "k < length ts \<Longrightarrow> outcomes run p a n ts ! k = run (n + k) (command p a (ts ! k))"
proof (induction ts arbitrary: n k)
  case Nil
  then show ?case by simp
next
  case (Cons t ts)
  then show ?case by (cases k) auto
qed

lemma say_simps [simp]:
  "console (say m w) = console w @ [m]"
  "lookups (say m w) = lookups w"
  "invocations (say m w) = invocations w"
  by (simp_all add: say_def)

lemma update_keys_insert: "map fst (AList.update k v al) = insert_key k (map fst al)"
  by (simp add: insert_key_def update_keys)

lemma map_of_rev_zip_last:
  "length xs = length ts \<Longrightarrow> k < length ts \<Longrightarrow>
   (\<forall>j<length ts. k < j \<longrightarrow> ts ! j \<noteq> ts ! k) \<Longrightarrow>
   map_of (rev (zip ts xs)) (ts ! k) = Some (xs ! k)"
proof (induction ts arbitrary: xs rule: rev_induct)
  case Nil
  then show ?case by simp
next
  case (snoc t ts)
  from snoc.prems(1) obtain xs' x where xs: "xs = xs' @ [x]" and len: "length xs' = length ts"
    by (cases xs rule: rev_cases) auto
  show ?case
  proof (cases "k = length ts")
    case True
    with xs len show ?thesis by (simp add: nth_append)
  next
    case False
    with snoc.prems(2) have k: "k < length ts" by simp
    have "(ts @ [t]) ! length ts \<noteq> (ts @ [t]) ! k"
      using snoc.prems(3) k by (metis length_append_singleton lessI)
    then have ne: "t \<noteq> ts ! k" using k by (simp add: nth_append)
    have "\<forall>j<length ts. k < j \<longrightarrow> ts ! j \<noteq> ts ! k"
    proof (intro allI impI)
      fix j assume j: "j < length ts" "k < j"
      then have "(ts @ [t]) ! j \<noteq> (ts @ [t]) ! k"
        using snoc.prems(3) by (metis length_append_singleton less_SucI)
      with j k show "ts ! j \<noteq> ts ! k" by (simp add: nth_append)
    qed
    from snoc.IH [OF len k this] ne xs len k show ?thesis
      by (simp add: nth_append)
  qed
qed

lemma remdups_snoc: "remdups (xs @ [t]) = remdups (filter (\<lambda>x. x \<noteq> t) xs) @ [t]"
  by (induction xs) auto

lemma fold_insert_key:
  "distinct ks \<Longrightarrow>
   fold insert_key ts ks = ks @ rev (remdups (rev (filter (\<lambda>t. t \<notin> set ks) ts)))"
proof (induction ts arbitrary: ks)
  case Nil
  then show ?case by simp
next
  case (Cons t ts)
  show ?case
  proof (cases "t \<in> set ks")
    case True
    with Cons show ?thesis by (simp add: insert_key_def)
  next
    case False
    with Cons.prems have d: "distinct (ks @ [t])" by simp
    have f: "filter (\<lambda>x. x \<notin> set (ks @ [t])) ts =
        filter (\<lambda>x. x \<noteq> t) (filter (\<lambda>x. x \<notin> set ks) ts)"
      by (induction ts) auto
    from False have "fold insert_key (t # ts) ks = fold insert_key ts (ks @ [t])"
      by (simp add: insert_key_def)
    also have "\<dots> = (ks @ [t]) @ rev (remdups (rev (filter (\<lambda>x. x \<notin> set (ks @ [t])) ts)))"
      by (rule Cons.IH [OF d])
    also have "\<dots> = ks @ rev (remdups (rev (filter (\<lambda>x. x \<notin> set ks) (t # ts))))"
      using False unfolding f by (simp add: remdups_snoc rev_filter)
    finally show ?thesis .
  qed
qed

lemma fold_insert_key_Nil: "fold insert_key ts [] = rev (remdups (rev ts))"
  using fold_insert_key [of "[]" ts] by simp


lemma ends_iff: "ends r \<longleftrightarrow> r = Inl TimeoutExpired \<or> (\<exists>proc. r = Inr proc)"
  by (auto simp: ends_def split: sum.splits)

lemma single_entry:
  "distinct (map fst al) \<Longrightarrow> k \<in> fst ` set al \<Longrightarrow> length (filter (\<lambda>e. fst e = k) al) = 1"
proof (induction al)
  case Nil
  then show ?case by simp
next
  case (Cons e al)
  show ?case
  proof (cases "fst e = k")
    case True
    with Cons.prems have "filter (\<lambda>e. fst e = k) al = []"
      by (force simp: filter_empty_conv image_iff)
    with True show ?thesis by simp
  next
    case False
    with Cons show ?thesis by auto
  qed
qed



lemma console_print_Inr:
  "console_print renders msg w = Inr w' \<longleftrightarrow> renders msg \<and> w' = say msg w"
  by (auto simp: console_print_def)

lemma console_print_Inl:
  "console_print renders msg w = Inl e \<longleftrightarrow> \<not> renders msg \<and> e = MarkupError"
  by (auto simp: console_print_def)

lemma panels_append [simp]: "panels (xs @ ys) = panels xs @ panels ys"
  by (simp add: panels_def)

lemma panels_single:
  "panels [m] = (case m of ReportPanel t i \<Rightarrow> [(t, i)] | _ \<Rightarrow> [])"
  by (simp add: panels_def)

text \<open>
  One iteration of the loop of \<open>run_nmap_scan\<close> in a run that returns: the call returned
  or timed out, its text is stored under the target, and the loop goes on with the rest.
\<close>

lemma scan_loop_step:
  assumes "scan_loop run renders p a (t # ts) results w = (Inr res, w')"
  shows "ends (run (length (invocations w)) (command p a t)) \<and>
    (\<exists>w3. invocations w3 = invocations w @ [command p a t] \<and>
       lookups w3 = lookups w \<and>
       panels (console w3) = panels (console w) \<and>
       scan_loop run renders p a ts
         (AList.update t (raw_text (run (length (invocations w)) (command p a t))) results) w3 =
         (Inr res, w'))"
proof -
  let ?cmd = "command p a t"
  let ?r = "run (length (invocations w)) ?cmd"
  let ?w1 = "say (Scanning t) w"
  let ?w2 = "?w1\<lparr>invocations := invocations ?w1 @ [?cmd]\<rparr>"
  from assms have p1: "console_print renders (Scanning t) w = Inr ?w1"
    by (auto simp: console_print_def split: if_splits)
  have i2: "invocations ?w2 = invocations w @ [?cmd]" "lookups ?w2 = lookups w"
    "panels (console ?w2) = panels (console w)"
    by (simp_all add: panels_def)
  show ?thesis
  proof (cases ?r)
    case (Inl e)
    let ?w3 = "say (ScanTimedOut t) ?w2"
    from assms p1 Inl have e: "e = TimeoutExpired"
      by (auto simp: Let_def split: if_splits)
    with assms p1 Inl have p3: "console_print renders (ScanTimedOut t) ?w2 = Inr ?w3"
      by (auto simp: Let_def console_print_def split: if_splits)
    with assms p1 Inl e
    have A: "scan_loop run renders p a ts (AList.update t [] results) ?w3 = (Inr res, w')"
      by (simp add: Let_def)
    have B: "invocations ?w3 = invocations w @ [?cmd]" "lookups ?w3 = lookups w"
      "panels (console ?w3) = panels (console w)"
      by (simp_all add: panels_def)
    from Inl e have E: "ends ?r" and R: "raw_text ?r = []"
      by (simp_all add: ends_def raw_text_def)
    have "\<exists>w3. invocations w3 = invocations w @ [?cmd] \<and> lookups w3 = lookups w \<and>
        panels (console w3) = panels (console w) \<and>
        scan_loop run renders p a ts (AList.update t (raw_text ?r) results) w3 = (Inr res, w')"
      unfolding R using A B by (intro exI [of _ ?w3] conjI)
    with E show ?thesis ..
  next
    case (Inr proc)
    from Inr have E: "ends ?r" and R: "raw_text ?r = stdout proc @ stderr proc"
      by (simp_all add: ends_def raw_text_def)
    show ?thesis
    proof (cases "returncode proc = 0")
      case True
      with assms p1 Inr
      have A: "scan_loop run renders p a ts (AList.update t (stdout proc @ stderr proc) results) ?w2 =
          (Inr res, w')"
        by (simp add: Let_def)
      have "\<exists>w3. invocations w3 = invocations w @ [?cmd] \<and> lookups w3 = lookups w \<and>
          panels (console w3) = panels (console w) \<and>
          scan_loop run renders p a ts (AList.update t (raw_text ?r) results) w3 = (Inr res, w')"
        unfolding R using A i2 by (intro exI [of _ ?w2] conjI)
      with E show ?thesis ..
    next
      case False
      let ?m = "NmapReturnedError (returncode proc) t (stderr proc)"
      let ?w3 = "say ?m ?w2"
      from assms p1 Inr False have p3: "console_print renders ?m ?w2 = Inr ?w3"
        by (auto simp: Let_def console_print_def split: if_splits)
      with assms p1 Inr False
      have A: "scan_loop run renders p a ts (AList.update t (stdout proc @ stderr proc) results)
          ?w3 = (Inr res, w')"
        by (simp add: Let_def)
      have B: "invocations ?w3 = invocations w @ [?cmd]" "lookups ?w3 = lookups w"
        "panels (console ?w3) = panels (console w)"
        by (simp_all add: panels_def)
      have "\<exists>w3. invocations w3 = invocations w @ [?cmd] \<and> lookups w3 = lookups w \<and>
          panels (console w3) = panels (console w) \<and>
          scan_loop run renders p a ts (AList.update t (raw_text ?r) results) w3 = (Inr res, w')"
        unfolding R using A B by (intro exI [of _ ?w3] conjI)
      with E show ?thesis ..
    qed
  qed
qed

lemma scan_loop_returns:
  "scan_loop run renders p a ts results w = (Inr res, w') \<Longrightarrow>
   invocations w' = invocations w @ map (command p a) ts \<and>
   lookups w' = lookups w \<and>
   panels (console w') = panels (console w) \<and>
   list_all ends (outcomes run p a (length (invocations w)) ts) \<and>
   map_of res = map_of results ++
     map_of (rev (zip ts (map raw_text (outcomes run p a (length (invocations w)) ts)))) \<and>
   map fst res = fold insert_key ts (map fst results)"
proof (induction ts arbitrary: results w)
  case Nil
  then show ?case by simp
next
  case (Cons t ts)
  let ?n = "length (invocations w)"
  let ?r = "run ?n (command p a t)"
  from scan_loop_step [OF Cons.prems] obtain w3
    where e: "ends ?r"
      and i3: "invocations w3 = invocations w @ [command p a t]"
      and l3: "lookups w3 = lookups w"
      and p3: "panels (console w3) = panels (console w)"
      and r: "scan_loop run renders p a ts (AList.update t (raw_text ?r) results) w3 = (Inr res, w')"
    by blast
  from Cons.IH [OF r]
  have i: "invocations w' = invocations w3 @ map (command p a) ts"
    and l: "lookups w' = lookups w3"
    and pp: "panels (console w') = panels (console w3)"
    and en: "list_all ends (outcomes run p a (length (invocations w3)) ts)"
    and m: "map_of res = map_of (AList.update t (raw_text ?r) results) ++
        map_of (rev (zip ts (map raw_text (outcomes run p a (length (invocations w3)) ts))))"
    and k: "map fst res = fold insert_key ts (map fst (AList.update t (raw_text ?r) results))"
    by blast+
  have "map_of res = map_of results ++
      map_of (rev (zip (t # ts) (map raw_text (outcomes run p a ?n (t # ts)))))"
    unfolding m by (auto simp: i3 update_conv' map_add_def fun_eq_iff split: option.splits)
  with i l pp en k e i3 l3 p3 show ?case
    by (simp add: update_keys_insert)
qed

lemma run_nmap_scan_returns:
  assumes "run_nmap_scan run renders p targets a w = (Inr results, w')"
  shows "invocations w' = invocations w @ map (command p a) targets"
    and "map fst results = rev (remdups (rev targets))"
    and "\<forall>k<length targets. (\<forall>j<length targets. k < j \<longrightarrow> targets ! j \<noteq> targets ! k) \<longrightarrow>
        map_of results (targets ! k) =
          Some (raw_text (run (length (invocations w) + k) (command p a (targets ! k))))"
    and "\<forall>k<length targets.
      run (length (invocations w) + k) (command p a (targets ! k)) = Inl TimeoutExpired \<or>
      (\<exists>proc. run (length (invocations w) + k) (command p a (targets ! k)) = Inr proc)"
proof -
  let ?n = "length (invocations w)"
  let ?outs = "map raw_text (outcomes run p a ?n targets)"
  from assms have r: "scan_loop run renders p a targets [] w = (Inr results, w')"
    by (simp add: run_nmap_scan_def)
  from scan_loop_returns [OF r]
  have i: "invocations w' = invocations w @ map (command p a) targets"
    and en: "list_all ends (outcomes run p a ?n targets)"
    and m: "map_of results = map_of (rev (zip targets ?outs))"
    and k: "map fst results = fold insert_key targets []"
    by auto
  show "invocations w' = invocations w @ map (command p a) targets" by (rule i)
  show "map fst results = rev (remdups (rev targets))"
    using k by (simp add: fold_insert_key_Nil)
  show "\<forall>k<length targets. (\<forall>j<length targets. k < j \<longrightarrow> targets ! j \<noteq> targets ! k) \<longrightarrow>
        map_of results (targets ! k) =
          Some (raw_text (run (?n + k) (command p a (targets ! k))))"
  proof (intro allI impI)
    fix k assume k: "k < length targets"
      and l: "\<forall>j<length targets. k < j \<longrightarrow> targets ! j \<noteq> targets ! k"
    have "map_of (rev (zip targets ?outs)) (targets ! k) = Some (?outs ! k)"
      by (rule map_of_rev_zip_last) (use k l in simp_all)
    with k show "map_of results (targets ! k) =
        Some (raw_text (run (?n + k) (command p a (targets ! k))))"
      by (simp add: m outcomes_nth)
  qed
  show "\<forall>k<length targets.
      run (?n + k) (command p a (targets ! k)) = Inl TimeoutExpired \<or>
      (\<exists>proc. run (?n + k) (command p a (targets ! k)) = Inr proc)"
  proof (intro allI impI)
    fix k assume k: "k < length targets"
    with en have "ends (outcomes run p a ?n targets ! k)"
      by (simp add: list_all_length)
    with k show "run (?n + k) (command p a (targets ! k)) = Inl TimeoutExpired \<or>
        (\<exists>proc. run (?n + k) (command p a (targets ! k)) = Inr proc)"
      by (simp add: outcomes_nth ends_iff)
  qed
qed

text \<open>
  C10. The dictionary is keyed by the target. When \<open>run_nmap_scan\<close> returns, one child
  process was started for every position of the list, so an address that stands at
  several positions was scanned once for each of them; the dictionary holds exactly one
  entry for the address, and it is the text of the call made for the last of these
  positions (\<open>k\<close> below): the texts of the earlier calls are gone.
\<close>

theorem duplicate_targets_last_wins:
  assumes "run_nmap_scan run renders nmap_path targets nmap_args w = (Inr results, w')"
    and "k < length targets"
    and "\<forall>j<length targets. k < j \<longrightarrow> targets ! j \<noteq> targets ! k"
  shows "length (invocations w') = length (invocations w) + length targets \<and>
     (\<forall>j<length targets.
        invocations w' ! (length (invocations w) + j) = command nmap_path nmap_args (targets ! j)) \<and>
     length (filter (\<lambda>e. fst e = targets ! k) results) = 1 \<and>
     map_of results (targets ! k) =
       Some (case run (length (invocations w) + k) (command nmap_path nmap_args (targets ! k)) of
               Inr proc \<Rightarrow> stdout proc @ stderr proc
             | Inl e \<Rightarrow> [])"
proof -
  note facts = run_nmap_scan_returns [OF assms(1)]
  have i: "invocations w' = invocations w @ map (command nmap_path nmap_args) targets"
    by (rule facts(1))
  have ks: "map fst results = rev (remdups (rev targets))"
    by (rule facts(2))
  have d: "distinct (map fst results)" unfolding ks by simp
  have "set (map fst results) = set targets" unfolding ks by simp
  with assms(2) have "targets ! k \<in> fst ` set results" by auto
  with d have one: "length (filter (\<lambda>e. fst e = targets ! k) results) = 1"
    by (rule single_entry)
  from facts(3) assms(2,3) have "map_of results (targets ! k) =
       Some (case run (length (invocations w) + k) (command nmap_path nmap_args (targets ! k)) of
               Inr proc \<Rightarrow> stdout proc @ stderr proc
             | Inl e \<Rightarrow> [])"
    by (simp add: raw_text_def)
  with i one show ?thesis by (auto simp: nth_append)
qed

theorem duplicate_targets_last_wins_witness:
  "sample_run 0 (command ''nmap'' quick_args ''10.0.0.1'') = Inl TimeoutExpired \<and>
   sample_run 2 (command ''nmap'' quick_args ''10.0.0.1'') =
     Inr \<lparr>stdout = ''Running: Linux 3.2'', stderr = [], returncode = 0\<rparr> \<and>
   fst (run_nmap_scan sample_run sample_renders ''nmap'' [''10.0.0.1'', ''10.0.0.2'', ''10.0.0.1'']
        quick_args initial_world) =
     Inr [(''10.0.0.1'', ''Running: Linux 3.2''),
          (''10.0.0.2'', ''OS details: Linux 5.4RTTVAR has grown'')] \<and>
   length (invocations (snd (run_nmap_scan sample_run sample_renders ''nmap''
        [''10.0.0.1'', ''10.0.0.2'', ''10.0.0.1''] quick_args initial_world))) = 3 \<and>
   length (filter (\<lambda>e. fst e = ''10.0.0.1'')
        [(''10.0.0.1'', ''Running: Linux 3.2''),
         (''10.0.0.2'', ''OS details: Linux 5.4RTTVAR has grown'')]) = 1 \<and>
   map_of [(''10.0.0.1'', ''Running: Linux 3.2''),
           (''10.0.0.2'', ''OS details: Linux 5.4RTTVAR has grown'')] ''10.0.0.1'' =
     Some ''Running: Linux 3.2''"
proof -
  let ?ts = "[''10.0.0.1'', ''10.0.0.2'', ''10.0.0.1'']"
  let ?res = "[(''10.0.0.1'', ''Running: Linux 3.2''),
          (''10.0.0.2'', ''OS details: Linux 5.4RTTVAR has grown'')]"
  let ?run = "run_nmap_scan sample_run sample_renders ''nmap'' ?ts quick_args initial_world"
  have n: "length (invocations initial_world) = 0"
    by (simp add: initial_world_def)
  have r0: "sample_run 0 (command ''nmap'' quick_args ''10.0.0.1'') = Inl TimeoutExpired"
    by (simp add: sample_run_def)
  have r2: "sample_run 2 (command ''nmap'' quick_args ''10.0.0.1'') =
     Inr \<lparr>stdout = ''Running: Linux 3.2'', stderr = [], returncode = 0\<rparr>"
    by (simp add: sample_run_def)
  have f: "fst ?run = Inr ?res" by code_simp
  obtain w' where r: "?run = (Inr ?res, w')"
    using f by (cases ?run) simp
  have k: "2 < length ?ts" by simp
  have last: "\<forall>j<length ?ts. 2 < j \<longrightarrow> ?ts ! j \<noteq> ?ts ! 2"
    by (auto simp: less_Suc_eq)
  note inst = duplicate_targets_last_wins [OF r k last]
  from inst have c: "length (invocations w') = length (invocations initial_world) + length ?ts"
    by (rule conjunct1)
  from inst have one: "length (filter (\<lambda>e. fst e = ?ts ! 2) ?res) = 1"
    by blast
  from inst have m: "map_of ?res (?ts ! 2) =
       Some (case sample_run (length (invocations initial_world) + 2)
                (command ''nmap'' quick_args (?ts ! 2)) of
               Inr proc \<Rightarrow> stdout proc @ stderr proc
             | Inl e \<Rightarrow> [])"
    by blast
  from c r have c': "length (invocations (snd ?run)) = 3" by (simp add: n)
  from one have one': "length (filter (\<lambda>e. fst e = ''10.0.0.1'') ?res) = 1" by simp
  from m r2 have m': "map_of ?res ''10.0.0.1'' = Some ''Running: Linux 3.2''"
    by (simp add: n numeral_2_eq_2)
  from r0 r2 f c' one' m' show ?thesis by (intro conjI)
qed

text \<open>
  C5. The batch is to go on after every call that returns, whatever its exit status, and
  after every call that times out, with an entry for every target. The loop attempts this
  and misses it: the report of an exit status that is not zero interpolates the standard
  error of the child process into markup, inside the \<open>try\<close> that catches
  \<open>subprocess.TimeoutExpired\<close> only. Below, the first child process returns with exit
  status 1 and a standard error that names a directory in brackets. The print raises
  \<open>MarkupError\<close>, which leaves \<open>run_nmap_scan\<close>: no dictionary is returned, and the
  second target is never scanned.
\<close>

theorem returned_call_aborts_batch:
  "bracket_run 0 (command ''nmap'' quick_args ''10.0.0.1'') =
     Inr \<lparr>stdout = [], stderr = ''see [/usr/share/nmap]'', returncode = 1\<rparr> \<and>
   run_nmap_scan bracket_run sample_renders ''nmap'' [''10.0.0.1'', ''10.0.0.2''] quick_args
     initial_world =
     (Inl MarkupError,
      \<lparr>console = [Scanning ''10.0.0.1''], lookups = 0,
       invocations = [command ''nmap'' quick_args ''10.0.0.1'']\<rparr>)"
proof -
  have a: "bracket_run 0 (command ''nmap'' quick_args ''10.0.0.1'') =
     Inr \<lparr>stdout = [], stderr = ''see [/usr/share/nmap]'', returncode = 1\<rparr>"
    by (simp add: bracket_run_def)
  have b: "run_nmap_scan bracket_run sample_renders ''nmap'' [''10.0.0.1'', ''10.0.0.2''] quick_args
     initial_world =
     (Inl MarkupError,
      \<lparr>console = [Scanning ''10.0.0.1''], lookups = 0,
       invocations = [command ''nmap'' quick_args ''10.0.0.1'']\<rparr>)"
    by code_simp
  from a b show ?thesis ..
qed

text \<open>
  An exception raised by the start of the child process leaves the loop in the same way.
  When the executable is not found the first call raises \<open>FileNotFoundError\<close>, and the
  second target is never scanned.
\<close>

lemma missing_executable_aborts:
  "run_nmap_scan missing_run sample_renders ''nmap'' [''10.0.0.1'', ''10.0.0.2''] quick_args
     initial_world =
     (Inl FileNotFoundError,
      \<lparr>console = [Scanning ''10.0.0.1''], lookups = 0,
       invocations = [command ''nmap'' quick_args ''10.0.0.1'']\<rparr>)"
  by code_simp

section \<open>Target selection\<close>

text \<open>
  C4. \<open>resolve_host\<close> is to return the address, or the failure value when the lookup
  fails, and to raise nothing. It catches \<open>socket.gaierror\<close> only. For a name of 64
  letters the lookup raises \<open>UnicodeError\<close>, from the encoding of the name, and that
  exception leaves \<open>resolve_host\<close>.
\<close>

theorem resolve_host_raises:
  "sample_gethostbyname (replicate 64 CHR ''a'') = Inl UnicodeError \<and>
   resolve_host sample_gethostbyname (replicate 64 CHR ''a'') = Inl UnicodeError"
  by (simp add: resolve_host_def sample_gethostbyname_def)

lemma resolve_host_cases:
  "resolve_host g t =
     (case g t of Inr ip \<Rightarrow> Inr (Some ip) | Inl e \<Rightarrow> if e = GaiError then Inr None else Inl e)"
  by (simp add: resolve_host_def)

lemma resolved_before_Suc:
  "resolved_before gh m ip \<Longrightarrow> resolved_before gh (Suc m) ip"
  by (auto simp: resolved_before_def intro: less_SucI)

text \<open>
  One iteration of the loop of \<open>interactive_target_selection\<close> on an answer that is not
  blank: what is printed, and with which list the loop goes on when the print is rendered.
\<close>

lemma selection_loop_unfold:
  assumes "strip target \<noteq> []"
  shows "selection_loop gh renders targets (target # answers) w =
    (let w1 = w\<lparr>lookups := Suc (lookups w)\<rparr> in
     case gh (lookups w) (strip target) of
       Inl e \<Rightarrow>
         if e = GaiError then
           (if renders (InvalidTarget target)
            then selection_loop gh renders targets answers (say (InvalidTarget target) w1)
            else (Inl MarkupError, answers, w1))
         else (Inl e, answers, w1)
     | Inr a \<Rightarrow>
         if a \<noteq> [] then
           (if renders (Added a)
            then selection_loop gh renders (targets @ [a]) answers (say (Added a) w1)
            else (Inl MarkupError, answers, w1))
         else
           (if renders (InvalidTarget target)
            then selection_loop gh renders targets answers (say (InvalidTarget target) w1)
            else (Inl MarkupError, answers, w1)))"
  using assms
  by (simp add: Let_def resolve_host_def console_print_def split: sum.splits)

lemma selection_step:
  assumes "strip target \<noteq> []"
    and "selection_loop gh renders targets (target # answers) w = (Inr ts, a', w')"
  shows "\<exists>targets1 w1. selection_loop gh renders targets1 answers w1 = (Inr ts, a', w') \<and>
     lookups w1 = Suc (lookups w) \<and> invocations w1 = invocations w \<and>
     panels (console w1) = panels (console w) \<and>
     (targets1 = targets \<or>
      (\<exists>ip. ip \<noteq> [] \<and> targets1 = targets @ [ip] \<and> gh (lookups w) (strip target) = Inr ip))"
proof -
  let ?w1 = "w\<lparr>lookups := Suc (lookups w)\<rparr>"
  let ?inv = "say (InvalidTarget target) ?w1"
  have inv: "lookups ?inv = Suc (lookups w)" "invocations ?inv = invocations w"
    "panels (console ?inv) = panels (console w)"
    by (simp_all add: panels_def)
  note u = selection_loop_unfold [OF assms(1), of gh renders targets answers w]
  note eq = assms(2) [unfolded u]
  show ?thesis
  proof (cases "gh (lookups w) (strip target)")
    case (Inl e)
    with eq have "selection_loop gh renders targets answers ?inv = (Inr ts, a', w')"
      by (simp add: Let_def split: if_splits)
    with inv show ?thesis by blast
  next
    case (Inr a)
    show ?thesis
    proof (cases "a = []")
      case True
      with Inr eq have "selection_loop gh renders targets answers ?inv = (Inr ts, a', w')"
        by (simp add: Let_def split: if_splits)
      with inv show ?thesis by blast
    next
      case False
      let ?add = "say (Added a) ?w1"
      have add: "lookups ?add = Suc (lookups w)" "invocations ?add = invocations w"
        "panels (console ?add) = panels (console w)"
        by (simp_all add: panels_def)
      from False Inr eq
      have "selection_loop gh renders (targets @ [a]) answers ?add = (Inr ts, a', w')"
        by (simp add: Let_def split: if_splits)
      with add False Inr show ?thesis by blast
    qed
  qed
qed

lemma selection_loop_returns:
  "selection_loop gh renders targets answers w = (Inr ts, a', w') \<Longrightarrow>
   invocations w' = invocations w \<and> panels (console w') = panels (console w) \<and>
   ((\<forall>ip \<in> set targets. ip \<noteq> [] \<and> resolved_before gh (lookups w) ip) \<longrightarrow>
    (\<forall>ip \<in> set ts. ip \<noteq> [] \<and> resolved_before gh (lookups w') ip))"
proof (induction answers arbitrary: targets w)
  case Nil
  then show ?case by simp
next
  case (Cons target answers)
  show ?case
  proof (cases "strip target = []")
    case True
    with Cons.prems show ?thesis by simp
  next
    case False
    from selection_step [OF False Cons.prems] obtain targets1 w1
      where r: "selection_loop gh renders targets1 answers w1 = (Inr ts, a', w')"
        and l: "lookups w1 = Suc (lookups w)" and i: "invocations w1 = invocations w"
        and p: "panels (console w1) = panels (console w)"
        and t: "targets1 = targets \<or>
          (\<exists>ip. ip \<noteq> [] \<and> targets1 = targets @ [ip] \<and> gh (lookups w) (strip target) = Inr ip)"
      by blast
    note ih = Cons.IH [OF r]
    have step: "(\<forall>ip \<in> set targets. ip \<noteq> [] \<and> resolved_before gh (lookups w) ip) \<longrightarrow>
        (\<forall>ip \<in> set targets1. ip \<noteq> [] \<and> resolved_before gh (lookups w1) ip)"
    proof (intro impI ballI)
      fix ip
      assume inv: "\<forall>ip \<in> set targets. ip \<noteq> [] \<and> resolved_before gh (lookups w) ip"
        and ip: "ip \<in> set targets1"
      from t show "ip \<noteq> [] \<and> resolved_before gh (lookups w1) ip"
      proof
        assume "targets1 = targets"
        with inv ip show ?thesis unfolding l by (blast intro: resolved_before_Suc)
      next
        assume "\<exists>a. a \<noteq> [] \<and> targets1 = targets @ [a] \<and> gh (lookups w) (strip target) = Inr a"
        then obtain a where a: "a \<noteq> []" "targets1 = targets @ [a]"
          "gh (lookups w) (strip target) = Inr a" by blast
        from a(3) have new: "resolved_before gh (Suc (lookups w)) a"
          unfolding resolved_before_def by blast
        from ip a(2) have "ip \<in> set targets \<or> ip = a" by auto
        then show ?thesis
        proof
          assume "ip \<in> set targets"
          with inv show ?thesis unfolding l by (blast intro: resolved_before_Suc)
        next
          assume "ip = a"
          with a(1) new show ?thesis unfolding l by simp
        qed
      qed
    qed
    from ih have i': "invocations w' = invocations w1"
      and p': "panels (console w') = panels (console w1)"
      and fin: "(\<forall>ip \<in> set targets1. ip \<noteq> [] \<and> resolved_before gh (lookups w1) ip) \<longrightarrow>
        (\<forall>ip \<in> set ts. ip \<noteq> [] \<and> resolved_before gh (lookups w') ip)"
      by (rule conjunct1, rule conjunct2 [THEN conjunct1], rule conjunct2 [THEN conjunct2])
    from step fin have "(\<forall>ip \<in> set targets. ip \<noteq> [] \<and> resolved_before gh (lookups w) ip) \<longrightarrow>
        (\<forall>ip \<in> set ts. ip \<noteq> [] \<and> resolved_before gh (lookups w') ip)"
    proof -
      have "A \<longrightarrow> C" if "A \<longrightarrow> B" "B \<longrightarrow> C" for A B C :: bool
        using that by (rule_tac impI) (drule (1) mp, drule (1) mp, assumption)
      from this [OF step fin] show ?thesis .
    qed
    with i p i' p' show ?thesis by simp
  qed
qed

lemma selection_iteration:
  assumes "strip target \<noteq> []"
    and "\<forall>ip \<in> set targets. ip \<noteq> [] \<and> resolved_before gh (lookups w) ip"
  shows "(\<exists>e. selection_loop gh renders targets (target # answers) w =
              (Inl e, answers, w\<lparr>lookups := Suc (lookups w)\<rparr>) \<and>
            ((e \<noteq> GaiError \<and> gh (lookups w) (strip target) = Inl e) \<or>
             (e = MarkupError \<and>
              ((gh (lookups w) (strip target) = Inl GaiError \<or>
                gh (lookups w) (strip target) = Inr []) \<and>
               \<not> renders (InvalidTarget target) \<or>
               (\<exists>ip. ip \<noteq> [] \<and> gh (lookups w) (strip target) = Inr ip \<and>
                  \<not> renders (Added ip)))))) \<or>
         (\<exists>targets1 w1.
            selection_loop gh renders targets (target # answers) w =
              selection_loop gh renders targets1 answers w1 \<and>
            lookups w1 = Suc (lookups w) \<and>
            (targets1 = targets \<or>
             (\<exists>ip. targets1 = targets @ [ip] \<and> gh (lookups w) (strip target) = Inr ip)) \<and>
            (\<forall>ip \<in> set targets1. ip \<noteq> [] \<and> resolved_before gh (lookups w1) ip))"
proof -
  let ?w1 = "w\<lparr>lookups := Suc (lookups w)\<rparr>"
  let ?inv = "say (InvalidTarget target) ?w1"
  let ?look = "gh (lookups w) (strip target)"
  define L where "L = selection_loop gh renders targets (target # answers) w"
  note u = selection_loop_unfold [OF assms(1), of gh renders targets answers w, folded L_def]
  have keep: "\<forall>ip \<in> set targets. ip \<noteq> [] \<and> resolved_before gh (lookups ?inv) ip"
    using assms(2) by (simp add: resolved_before_Suc)
  have linv: "lookups ?inv = Suc (lookups w)" by simp
  have raises: "?thesis" if "L = (Inl e, answers, ?w1)"
    and "(e \<noteq> GaiError \<and> ?look = Inl e) \<or>
         (e = MarkupError \<and>
          ((?look = Inl GaiError \<or> ?look = Inr []) \<and> \<not> renders (InvalidTarget target) \<or>
           (\<exists>ip. ip \<noteq> [] \<and> ?look = Inr ip \<and> \<not> renders (Added ip))))" for e
    unfolding L_def [symmetric]
    by (rule disjI1, rule exI [of _ e], rule conjI, rule that(1), rule that(2))
  have goes_on: "?thesis" if "L = selection_loop gh renders targets1 answers w1"
    and "lookups w1 = Suc (lookups w)"
    and "targets1 = targets \<or> (\<exists>ip. targets1 = targets @ [ip] \<and> ?look = Inr ip)"
    and "\<forall>ip \<in> set targets1. ip \<noteq> [] \<and> resolved_before gh (lookups w1) ip"
    for targets1 w1
    unfolding L_def [symmetric]
    by (rule disjI2, rule exI [of _ targets1], rule exI [of _ w1], rule conjI, rule that(1),
        rule conjI, rule that(2), rule conjI, rule that(3), rule that(4))
  show ?thesis
  proof (cases ?look)
    case (Inl e)
    show ?thesis
    proof (cases "e = GaiError")
      case False
      with Inl have "L = (Inl e, answers, ?w1)"
        unfolding u by (simp add: Let_def)
      moreover from False Inl
      have "(e \<noteq> GaiError \<and> ?look = Inl e) \<or>
        (e = MarkupError \<and>
         ((?look = Inl GaiError \<or> ?look = Inr []) \<and> \<not> renders (InvalidTarget target) \<or>
          (\<exists>ip. ip \<noteq> [] \<and> ?look = Inr ip \<and> \<not> renders (Added ip))))"
        by simp
      ultimately show ?thesis by (rule raises)
    next
      case True
      show ?thesis
      proof (cases "renders (InvalidTarget target)")
        case r: True
        with True Inl have "L = selection_loop gh renders targets answers ?inv"
          unfolding u by (simp add: Let_def)
        from this linv _ keep show ?thesis by (rule goes_on) simp
      next
        case r: False
        with True Inl have "L = (Inl MarkupError, answers, ?w1)"
          unfolding u by (simp add: Let_def)
        moreover from r True Inl
        have "(MarkupError \<noteq> GaiError \<and> ?look = Inl MarkupError) \<or>
          (MarkupError = MarkupError \<and>
           ((?look = Inl GaiError \<or> ?look = Inr []) \<and> \<not> renders (InvalidTarget target) \<or>
            (\<exists>ip. ip \<noteq> [] \<and> ?look = Inr ip \<and> \<not> renders (Added ip))))"
          by simp
        ultimately show ?thesis by (rule raises)
      qed
    qed
  next
    case (Inr a)
    show ?thesis
    proof (cases "a = []")
      case True
      show ?thesis
      proof (cases "renders (InvalidTarget target)")
        case r: True
        with True Inr have "L = selection_loop gh renders targets answers ?inv"
          unfolding u by (simp add: Let_def)
        from this linv _ keep show ?thesis by (rule goes_on) simp
      next
        case r: False
        with True Inr have "L = (Inl MarkupError, answers, ?w1)"
          unfolding u by (simp add: Let_def)
        moreover from r True Inr
        have "(MarkupError \<noteq> GaiError \<and> ?look = Inl MarkupError) \<or>
          (MarkupError = MarkupError \<and>
           ((?look = Inl GaiError \<or> ?look = Inr []) \<and> \<not> renders (InvalidTarget target) \<or>
            (\<exists>ip. ip \<noteq> [] \<and> ?look = Inr ip \<and> \<not> renders (Added ip))))"
          by simp
        ultimately show ?thesis by (rule raises)
      qed
    next
      case False
      let ?add = "say (Added a) ?w1"
      show ?thesis
      proof (cases "renders (Added a)")
        case r: True
        with False Inr have e: "L = selection_loop gh renders (targets @ [a]) answers ?add"
          unfolding u by (simp add: Let_def)
        have "resolved_before gh (Suc (lookups w)) a"
          using Inr by (auto simp: resolved_before_def)
        then have k: "\<forall>ip \<in> set (targets @ [a]). ip \<noteq> [] \<and> resolved_before gh (lookups ?add) ip"
          using assms(2) False by (simp add: resolved_before_Suc)
        have l: "lookups ?add = Suc (lookups w)" by simp
        from Inr have t: "targets @ [a] = targets \<or>
            (\<exists>ip. targets @ [a] = targets @ [ip] \<and> ?look = Inr ip)"
          by simp
        from e l t k show ?thesis by (rule goes_on)
      next
        case r: False
        with False Inr have "L = (Inl MarkupError, answers, ?w1)"
          unfolding u by (simp add: Let_def)
        moreover from r False Inr
        have "(MarkupError \<noteq> GaiError \<and> ?look = Inl MarkupError) \<or>
          (MarkupError = MarkupError \<and>
           ((?look = Inl GaiError \<or> ?look = Inr []) \<and> \<not> renders (InvalidTarget target) \<or>
            (\<exists>ip. ip \<noteq> [] \<and> ?look = Inr ip \<and> \<not> renders (Added ip))))"
          by simp
        ultimately show ?thesis by (rule raises)
      qed
    qed
  qed
qed

text \<open>
  C8. Every address in \<open>targets\<close> is not empty and was returned by a call of
  \<open>gethostbyname\<close> made before. This holds of the list that
  \<open>interactive_target_selection\<close> returns, and it is an invariant of its loop: from a
  state in which it holds, an iteration that reads an answer which is not blank either
  raises or leads to the next iteration in a state in which it holds again, where
  \<open>targets\<close> is unchanged or extended by the address that this iteration's lookup
  returned; so an answer whose lookup failed adds nothing. The iteration raises in three
  cases only, and then no list is returned and no further answer is read: the lookup
  raised something other than \<open>socket.gaierror\<close>; the lookup failed and the report of
  the invalid target raised \<open>MarkupError\<close>; the lookup returned an address and the
  report of that address raised \<open>MarkupError\<close>.
\<close>

theorem selection_invariant:
  assumes "\<forall>ip \<in> set targets. ip \<noteq> [] \<and> resolved_before gethostbyname (lookups w) ip"
  shows "(\<forall>ts a' w'. selection_loop gethostbyname renders targets answers w = (Inr ts, a', w') \<longrightarrow>
           (\<forall>ip \<in> set ts. ip \<noteq> [] \<and> resolved_before gethostbyname (lookups w') ip)) \<and>
         (strip target \<noteq> [] \<longrightarrow>
           (\<exists>e. selection_loop gethostbyname renders targets (target # answers) w =
                (Inl e, answers, w\<lparr>lookups := Suc (lookups w)\<rparr>) \<and>
              ((e \<noteq> GaiError \<and> gethostbyname (lookups w) (strip target) = Inl e) \<or>
               (e = MarkupError \<and>
                ((gethostbyname (lookups w) (strip target) = Inl GaiError \<or>
                  gethostbyname (lookups w) (strip target) = Inr []) \<and>
                 \<not> renders (InvalidTarget target) \<or>
                 (\<exists>ip. ip \<noteq> [] \<and> gethostbyname (lookups w) (strip target) = Inr ip \<and>
                    \<not> renders (Added ip)))))) \<or>
           (\<exists>targets1 w1.
              selection_loop gethostbyname renders targets (target # answers) w =
                selection_loop gethostbyname renders targets1 answers w1 \<and>
              lookups w1 = Suc (lookups w) \<and>
              (targets1 = targets \<or>
               (\<exists>ip. targets1 = targets @ [ip] \<and> gethostbyname (lookups w) (strip target) = Inr ip)) \<and>
              (\<forall>ip \<in> set targets1. ip \<noteq> [] \<and> resolved_before gethostbyname (lookups w1) ip))) \<and>
         (\<forall>ts a' w'. interactive_target_selection gethostbyname renders answers w = (Inr ts, a', w') \<longrightarrow>
           (\<forall>ip \<in> set ts. ip \<noteq> [] \<and> resolved_before gethostbyname (lookups w') ip))"
proof (intro conjI allI impI)
  fix ts a' w'
  assume "selection_loop gethostbyname renders targets answers w = (Inr ts, a', w')"
  from selection_loop_returns [OF this] assms
  show "\<forall>ip \<in> set ts. ip \<noteq> [] \<and> resolved_before gethostbyname (lookups w') ip" by blast
next
  assume "strip target \<noteq> []"
  from selection_iteration [OF this assms]
  show "(\<exists>e. selection_loop gethostbyname renders targets (target # answers) w =
                (Inl e, answers, w\<lparr>lookups := Suc (lookups w)\<rparr>) \<and>
              ((e \<noteq> GaiError \<and> gethostbyname (lookups w) (strip target) = Inl e) \<or>
               (e = MarkupError \<and>
                ((gethostbyname (lookups w) (strip target) = Inl GaiError \<or>
                  gethostbyname (lookups w) (strip target) = Inr []) \<and>
                 \<not> renders (InvalidTarget target) \<or>
                 (\<exists>ip. ip \<noteq> [] \<and> gethostbyname (lookups w) (strip target) = Inr ip \<and>
                    \<not> renders (Added ip)))))) \<or>
           (\<exists>targets1 w1.
              selection_loop gethostbyname renders targets (target # answers) w =
                selection_loop gethostbyname renders targets1 answers w1 \<and>
              lookups w1 = Suc (lookups w) \<and>
              (targets1 = targets \<or>
               (\<exists>ip. targets1 = targets @ [ip] \<and> gethostbyname (lookups w) (strip target) = Inr ip)) \<and>
              (\<forall>ip \<in> set targets1. ip \<noteq> [] \<and> resolved_before gethostbyname (lookups w1) ip))" .
next
  fix ts a' w'
  assume "interactive_target_selection gethostbyname renders answers w = (Inr ts, a', w')"
  then have "selection_loop gethostbyname renders [] answers w = (Inr ts, a', w')"
    by (simp add: interactive_target_selection_def)
  from selection_loop_returns [OF this]
  show "\<forall>ip \<in> set ts. ip \<noteq> [] \<and> resolved_before gethostbyname (lookups w') ip" by simp
qed

theorem selection_invariant_witness:
  "''127.0.0.1'' \<noteq> [] \<and>
   resolved_before sample_lookup 1 ''127.0.0.1'' \<and>
   selection_loop sample_lookup sample_renders [''127.0.0.1'']
     [''no.such.host'', '' 10.0.0.1 '', [], ''1'']
     \<lparr>console = [Added ''127.0.0.1''], lookups = 1, invocations = []\<rparr> =
     (Inr [''127.0.0.1'', ''10.0.0.1''], [''1''],
      \<lparr>console = [Added ''127.0.0.1'', InvalidTarget ''no.such.host'', Added ''10.0.0.1''],
       lookups = 3, invocations = []\<rparr>) \<and>
   resolved_before sample_lookup 3 ''127.0.0.1'' \<and>
   resolved_before sample_lookup 3 ''10.0.0.1''"
proof -
  let ?w = "\<lparr>console = [Added ''127.0.0.1''], lookups = 1, invocations = []\<rparr>"
  let ?w' = "\<lparr>console = [Added ''127.0.0.1'', InvalidTarget ''no.such.host'', Added ''10.0.0.1''],
       lookups = 3, invocations = []\<rparr>"
  have "sample_lookup 0 ''localhost'' = Inr ''127.0.0.1''"
    by (simp add: sample_lookup_def sample_gethostbyname_def)
  then have h0: "resolved_before sample_lookup 1 ''127.0.0.1''"
    unfolding resolved_before_def by (intro exI [of _ 0] exI [of _ "''localhost''"]) simp
  then have h: "\<forall>ip \<in> set [''127.0.0.1'']. ip \<noteq> [] \<and> resolved_before sample_lookup (lookups ?w) ip"
    by simp
  have r: "selection_loop sample_lookup sample_renders [''127.0.0.1'']
      [''no.such.host'', '' 10.0.0.1 '', [], ''1''] ?w =
     (Inr [''127.0.0.1'', ''10.0.0.1''], [''1''], ?w')"
    by code_simp
  note inst = selection_invariant [OF h, THEN conjunct1, rule_format, OF r]
  from inst [of "''127.0.0.1''"] have res1: "resolved_before sample_lookup 3 ''127.0.0.1''"
    by simp
  from inst [of "''10.0.0.1''"] have res2: "resolved_before sample_lookup 3 ''10.0.0.1''"
    by simp
  have ne: "''127.0.0.1'' \<noteq> []" by simp
  from ne h0 r res1 res2 show ?thesis by (intro conjI)
qed

text \<open>
  An iteration that raises at its print: the answer is a closing tag, its lookup fails,
  and the report of the invalid target raises \<open>MarkupError\<close>. The answers that follow
  are not read.
\<close>

lemma selection_markup_error:
  "sample_lookup 0 ''[/x]'' = Inl GaiError \<and>
   interactive_target_selection sample_lookup sample_renders [''[/x]'', ''10.0.0.1'', []]
     initial_world =
     (Inl MarkupError, [''10.0.0.1'', []], \<lparr>console = [], lookups = 1, invocations = []\<rparr>)"
proof -
  have a: "sample_lookup 0 ''[/x]'' = Inl GaiError"
    by (simp add: sample_lookup_def sample_gethostbyname_def)
  have b: "interactive_target_selection sample_lookup sample_renders [''[/x]'', ''10.0.0.1'', []]
     initial_world =
     (Inl MarkupError, [''10.0.0.1'', []], \<lparr>console = [], lookups = 1, invocations = []\<rparr>)"
    by code_simp
  from a b show ?thesis ..
qed

section \<open>The session\<close>

lemma mode_loop_frame: "mode_loop answers w = (r, a', w') \<Longrightarrow> w' = w"
proof (induction answers arbitrary: w)
  case Nil
  then show ?case by simp
next
  case (Cons choice answers)
  consider "choice = ''1''" | "choice \<noteq> ''1''" "choice = ''2''"
    | "choice \<noteq> ''1''" "choice \<noteq> ''2''" "choice = ''3''"
    | "choice \<noteq> ''1''" "choice \<noteq> ''2''" "choice \<noteq> ''3''"
    by blast
  then show ?case
  proof cases
    case 1
    with Cons.prems show ?thesis by simp
  next
    case 2
    with Cons.prems show ?thesis by simp
  next
    case 3
    with Cons.prems show ?thesis by (cases answers) simp_all
  next
    case 4
    with Cons.prems have "mode_loop answers w = (r, a', w')" by simp
    then show ?thesis by (rule Cons.IH)
  qed
qed

text \<open>
  When the loop over \<open>results.items()\<close> runs to its end it has printed one panel for every
  item, in the order of the items.
\<close>

lemma report_loop_panels:
  "report_loop renders items fps w = (Inr fps', w') \<Longrightarrow>
   console w' = console w @ map (\<lambda>(t, output). ReportPanel t (markup (classify output))) items"
proof (induction items arbitrary: fps w)
  case Nil
  then show ?case by simp
next
  case (Cons item items)
  obtain t raw where item: "item = (t, raw)" by (cases item)
  let ?msg = "ReportPanel t (markup (classify raw))"
  from Cons.prems have r: "renders ?msg"
    by (simp add: item parse_os_fingerprint_markup console_print_def split: if_splits)
  with Cons.prems
  have "report_loop renders items (AList.update t (markup (classify raw)) fps) (say ?msg w) =
      (Inr fps', w')"
    by (simp add: item parse_os_fingerprint_markup console_print_def)
  from Cons.IH [OF this] show ?case by (simp add: item)
qed

lemma panels_report: "panels (map (\<lambda>(t, output). ReportPanel t (f output)) items) =
    map (\<lambda>(t, output). (t, f output)) items"
  by (induction items) (auto simp: panels_def)

text \<open>
  C7. When target selection returns the empty list, \<open>main\<close> prints the message that no
  targets were provided and calls \<open>sys.exit(1)\<close>; the entry point does not catch
  \<open>SystemExit\<close>, so the exit status is 1. Nothing else happens after the selection: no
  answer is read, nothing more is printed, and no child process has been started.
\<close>

theorem no_targets_exit:
  assumes "interactive_target_selection gethostbyname renders answers (say Welcome w) =
      (Inr [], a1, w1)"
  shows "entrypoint gethostbyname run renders nmap_path has_3d answers w =
           (1, a1, say NoTargets w1) \<and>
         invocations (say NoTargets w1) = invocations w"
proof -
  from assms have m: "main gethostbyname run renders nmap_path has_3d answers w =
      (Inl (SystemExit 1), a1, say NoTargets w1)"
    by (simp add: main_def)
  from assms
  have "selection_loop gethostbyname renders [] answers (say Welcome w) = (Inr [], a1, w1)"
    by (simp add: interactive_target_selection_def)
  from selection_loop_returns [OF this] have "invocations w1 = invocations w" by simp
  with m show ?thesis by (simp add: entrypoint_def)
qed

theorem no_targets_exit_witness:
  "interactive_target_selection sample_lookup sample_renders [''no.such.host'', [], ''1'']
     (say Welcome initial_world) =
     (Inr [], [''1''],
      \<lparr>console = [Welcome, InvalidTarget ''no.such.host''], lookups = 1, invocations = []\<rparr>) \<and>
   entrypoint sample_lookup sample_run sample_renders ''nmap'' False
     [''no.such.host'', [], ''1''] initial_world =
     (1, [''1''],
      say NoTargets
        \<lparr>console = [Welcome, InvalidTarget ''no.such.host''], lookups = 1, invocations = []\<rparr>) \<and>
   invocations (say NoTargets
        \<lparr>console = [Welcome, InvalidTarget ''no.such.host''], lookups = 1, invocations = []\<rparr>) =
     invocations initial_world"
proof -
  have r: "interactive_target_selection sample_lookup sample_renders [''no.such.host'', [], ''1'']
     (say Welcome initial_world) =
     (Inr [], [''1''],
      \<lparr>console = [Welcome, InvalidTarget ''no.such.host''], lookups = 1, invocations = []\<rparr>)"
    by code_simp
  note inst = no_targets_exit [OF r, of sample_run "''nmap''" False]
  from r inst [THEN conjunct1] inst [THEN conjunct2] show ?thesis
    by (intro conjI)
qed

text \<open>
  C6, as amended. When \<open>main\<close> runs to its end, the panels it has printed are one for
  every distinct target of the list that the selection returned, in the order in which
  the targets first occur in the list. For a list without duplicates that is exactly one
  panel for every element of the list, in the order of the list.
\<close>

theorem report_entries:
  assumes "main gethostbyname run renders nmap_path has_3d answers w = (Inr u, a', w')"
    and "interactive_target_selection gethostbyname renders answers (say Welcome w) =
      (Inr targets, a1, w1)"
  shows "\<exists>entries. panels (console w') = panels (console w) @ entries \<and>
           map fst entries = rev (remdups (rev targets)) \<and>
           distinct (map fst entries) \<and>
           set (map fst entries) = set targets \<and>
           (distinct targets \<longrightarrow> map fst entries = targets)"
proof -
  from assms(2)
  have sel: "selection_loop gethostbyname renders [] answers (say Welcome w) = (Inr targets, a1, w1)"
    by (simp add: interactive_target_selection_def)
  from selection_loop_returns [OF sel] have p1: "panels (console w1) = panels (console w)"
    by (simp add: panels_def)
  from assms have ne: "targets \<noteq> []"
    by (auto simp: main_def)
  obtain r2 a2 w2 where m2: "select_scan_mode a1 w1 = (r2, a2, w2)"
    by (cases "select_scan_mode a1 w1") auto
  with assms ne obtain scanmode nmap_args where r2: "r2 = Inr (scanmode, nmap_args)"
    by (cases r2) (auto simp: main_def)
  from m2 have "mode_loop a1 (say ModeTable w1) = (r2, a2, w2)"
    by (simp add: select_scan_mode_def)
  then have "w2 = say ModeTable w1" by (rule mode_loop_frame)
  then have p2: "panels (console w2) = panels (console w1)"
    by (simp add: panels_def)
  let ?w2' = "say (ModeSelected scanmode nmap_args) w2"
  have p2': "panels (console ?w2') = panels (console w2)"
    by (simp add: panels_def)
  from assms ne m2 r2 have rm: "renders (ModeSelected scanmode nmap_args)"
    by (auto simp: main_def console_print_def split: if_splits)
  then have cp: "console_print renders (ModeSelected scanmode nmap_args) w2 = Inr ?w2'"
    by (simp add: console_print_def)
  obtain r3 w3 where m3: "run_nmap_scan run renders nmap_path targets nmap_args ?w2' = (r3, w3)"
    by (cases "run_nmap_scan run renders nmap_path targets nmap_args ?w2'") auto
  with assms ne m2 r2 cp obtain results where r3: "r3 = Inr results"
    by (cases r3) (auto simp: main_def)
  from m3 r3
  have sc: "scan_loop run renders nmap_path nmap_args targets [] ?w2' = (Inr results, w3)"
    by (simp add: run_nmap_scan_def)
  note sr = scan_loop_returns [OF sc]
  from sr have p3: "panels (console w3) = panels (console ?w2')"
    by (rule conjunct2 [THEN conjunct2, THEN conjunct1])
  from sr have "map fst results = fold insert_key targets (map fst [])"
    by simp
  then have keys: "map fst results = rev (remdups (rev targets))"
    by (simp add: fold_insert_key_Nil)
  obtain r4 w4 where m4: "report_loop renders results [] w3 = (r4, w4)"
    by (cases "report_loop renders results [] w3") auto
  with assms ne m2 r2 cp m3 r3 obtain fps where r4: "r4 = Inr fps"
    by (cases r4) (auto simp: main_def)
  from report_loop_panels [OF m4 [unfolded r4]]
  have c4: "console w4 = console w3 @
        map (\<lambda>(t, output). ReportPanel t (markup (classify output))) results" .
  let ?entries = "map (\<lambda>(t, output). (t, markup (classify output))) results"
  from c4 have p4: "panels (console w4) = panels (console w3) @ ?entries"
    by (simp add: panels_report)
  from assms ne m2 r2 cp m3 r3 m4 r4
  have "w' = say ScanComplete w4 \<or> w' = say ScanComplete (say (Plot3D fps) w4)"
    by (auto simp: main_def split: if_splits list.splits)
  then have p5: "panels (console w') = panels (console w4)"
    by (auto simp: panels_def)
  have fst_entries: "map fst ?entries = map fst results"
    by (induction results) auto
  have "panels (console w') = panels (console w) @ ?entries"
    using p1 p2 p2' p3 p4 p5 by simp
  moreover have "map fst ?entries = rev (remdups (rev targets))"
    using fst_entries keys by simp
  moreover have "distinct (rev (remdups (rev targets)))" by simp
  moreover have "set (rev (remdups (rev targets))) = set targets" by simp
  moreover have "distinct targets \<longrightarrow> rev (remdups (rev targets)) = targets"
    by (simp add: distinct_remdups_id)
  ultimately show ?thesis by (intro exI [of _ ?entries]) simp
qed

theorem report_entries_witness:
  "fst (main sample_lookup sample_run sample_renders ''nmap'' False
          [''localhost'', ''10.0.0.2'', ''localhost'', [], ''2''] initial_world) = Inr () \<and>
   fst (interactive_target_selection sample_lookup sample_renders
          [''localhost'', ''10.0.0.2'', ''localhost'', [], ''2''] (say Welcome initial_world)) =
     Inr [''127.0.0.1'', ''10.0.0.2'', ''127.0.0.1''] \<and>
   map fst (panels (console (snd (snd (main sample_lookup sample_run sample_renders ''nmap'' False
          [''localhost'', ''10.0.0.2'', ''localhost'', [], ''2''] initial_world))))) =
     [''127.0.0.1'', ''10.0.0.2'']"
proof -
  let ?answers = "[''localhost'', ''10.0.0.2'', ''localhost'', [], ''2'']"
  let ?m = "main sample_lookup sample_run sample_renders ''nmap'' False ?answers initial_world"
  let ?s = "interactive_target_selection sample_lookup sample_renders ?answers
    (say Welcome initial_world)"
  have m: "fst ?m = Inr ()" by code_simp
  have s: "fst ?s = Inr [''127.0.0.1'', ''10.0.0.2'', ''127.0.0.1'']" by code_simp
  obtain u a' w' where m': "?m = (u, a', w')" by (cases ?m)
  obtain ts a1 w1 where s': "?s = (ts, a1, w1)" by (cases ?s)
  from m m' have u: "u = Inr ()" by simp
  from s s' have ts: "ts = Inr [''127.0.0.1'', ''10.0.0.2'', ''127.0.0.1'']" by simp
  from report_entries [OF m' [unfolded u] s' [unfolded ts]] obtain entries
    where p: "panels (console w') = panels (console initial_world) @ entries"
      and k: "map fst entries = rev (remdups (rev [''127.0.0.1'', ''10.0.0.2'', ''127.0.0.1'']))"
    by blast
  have "panels (console initial_world) = []"
    by (simp add: initial_world_def panels_def)
  with p have "map fst (panels (console w')) = map fst entries" by simp
  also have "\<dots> = [''127.0.0.1'', ''10.0.0.2'']" unfolding k by simp
  finally have "map fst (panels (console (snd (snd ?m)))) = [''127.0.0.1'', ''10.0.0.2'']"
    by (simp add: m')
  with m s show ?thesis by (intro conjI)
qed

text \<open>
  C6 as it was stated fails on a list with a duplicate: the selection returns two targets,
  both are scanned, and one panel is printed.
\<close>

theorem duplicate_target_one_entry:
  "fst (interactive_target_selection sample_lookup sample_renders
          [''10.0.0.1'', ''10.0.0.1'', [], ''1''] (say Welcome initial_world)) =
     Inr [''10.0.0.1'', ''10.0.0.1''] \<and>
   fst (main sample_lookup sample_run sample_renders ''nmap'' False
          [''10.0.0.1'', ''10.0.0.1'', [], ''1''] initial_world) = Inr () \<and>
   panels (console (snd (snd (main sample_lookup sample_run sample_renders ''nmap'' False
          [''10.0.0.1'', ''10.0.0.1'', [], ''1''] initial_world)))) =
     [(''10.0.0.1'', ''[os]Linux 5.4RTTVAR has grown[/os]'')] \<and>
   length (panels (console (snd (snd (main sample_lookup sample_run sample_renders ''nmap'' False
          [''10.0.0.1'', ''10.0.0.1'', [], ''1''] initial_world))))) \<noteq>
     length [''10.0.0.1'', ''10.0.0.1'']"
proof -
  have a: "fst (interactive_target_selection sample_lookup sample_renders
          [''10.0.0.1'', ''10.0.0.1'', [], ''1''] (say Welcome initial_world)) =
     Inr [''10.0.0.1'', ''10.0.0.1'']"
    by code_simp
  have b: "fst (main sample_lookup sample_run sample_renders ''nmap'' False
          [''10.0.0.1'', ''10.0.0.1'', [], ''1''] initial_world) = Inr ()"
    by code_simp
  have c: "panels (console (snd (snd (main sample_lookup sample_run sample_renders ''nmap'' False
          [''10.0.0.1'', ''10.0.0.1'', [], ''1''] initial_world)))) =
     [(''10.0.0.1'', ''[os]Linux 5.4RTTVAR has grown[/os]'')]"
    by code_simp
  have d: "length (panels (console (snd (snd (main sample_lookup sample_run sample_renders ''nmap''
          False [''10.0.0.1'', ''10.0.0.1'', [], ''1''] initial_world))))) \<noteq>
     length [''10.0.0.1'', ''10.0.0.1'']"
    unfolding c by simp
  from a b c d show ?thesis by (intro conjI)
qed

text \<open>
  Custom arguments are interpolated into the line that reports the selected mode. When
  they hold a closing tag the print raises \<open>MarkupError\<close> before any scan is made; the
  report of that exception at the entry point raises in its turn, and the script ends with
  exit status 1.
\<close>

lemma custom_arguments_markup_error:
  "entrypoint sample_lookup sample_run sample_renders ''nmap'' False
     [''10.0.0.1'', [], ''3'', ''-O [/x]''] initial_world =
     (1, [], \<lparr>console = [Welcome, Added ''10.0.0.1'', ModeTable], lookups = 1, invocations = []\<rparr>)"
  by code_simp

end
